theory Spec2Isabelle
  imports Main "HOL-Library.AList"
begin

section \<open>The CSV repair pipeline of \<open>solution.py\<close>\<close>

text \<open>
  The development embeds \<open>preprocess\<close> and \<open>fix_bad_line\<close> of \<open>src/solution.py\<close>.
  A file is the list of its bytes (\<open>string\<close>, a list of 8-bit \<open>char\<close>s). Python text
  is represented by its UTF-8 encoding: a \<open>str\<close> obtained by \<open>decode('utf-8')\<close> is the
  validated byte list itself. Every character the \<open>csv\<close> module and the text layer
  inspect (comma, double quote, CR, LF) is ASCII, and no byte of a multi-byte UTF-8
  sequence is ASCII, so parsing and writing act on the encoded bytes exactly as they act
  on the code points; emptiness of a field and the number of fields are the same in both
  views. Files opened in text mode are assumed to use UTF-8 and POSIX newline handling
  (\<open>os.linesep\<close> is LF, so writing translates nothing; reading translates CR LF
  and a lone CR to LF).

  The \<open>csv\<close> module is the CPython \<open>_csv\<close> reader and writer under the default
  \<open>excel\<close> dialect (delimiter comma, quote character double quote, doubled quotes,
  minimal quoting, line terminator CR LF, not strict, no escape character). The states
  that only an escape character reaches are left out, and so is the limit of 131072
  characters on the length of one field.
\<close>

subsection \<open>Characters and errors\<close>

abbreviation NUL :: char where "NUL \<equiv> CHR 0x00"
abbreviation LF :: char where "LF \<equiv> CHR 0x0A"
abbreviation CR :: char where "CR \<equiv> CHR 0x0D"
abbreviation QUOTE :: char where "QUOTE \<equiv> CHR 0x22"
abbreviation COMMA :: char where "COMMA \<equiv> CHR 0x2C"

datatype error = UnicodeDecodeError | CsvError | StopIteration | FileNotFoundError

type_synonym row = "string list"

subsection \<open>Binary lines, NUL removal and UTF-8 decoding\<close>

text \<open>
  Iterating a file opened with \<open>'rb'\<close> yields its lines, each ending with its LF; the
  last line may lack one, and an empty file has no line.
\<close>

fun binary_lines :: "string \<Rightarrow> string list" where
  "binary_lines [] = []"
| "binary_lines (c # cs) =
     (if c = LF then [c] # binary_lines cs
      else (case binary_lines cs of [] \<Rightarrow> [[c]] | l # ls \<Rightarrow> (c # l) # ls))"

text \<open>\<open>line.replace(b'\x00', b'')\<close>\<close>

definition strip_nul :: "string \<Rightarrow> string" where
  "strip_nul line = filter (\<lambda>c. c \<noteq> NUL) line"

definition byte_in :: "char \<Rightarrow> nat \<Rightarrow> nat \<Rightarrow> bool" where
  "byte_in c lo hi = (lo \<le> of_char c \<and> (of_char c :: nat) \<le> hi)"

definition cont :: "char \<Rightarrow> bool" where
  "cont c = byte_in c 0x80 0xBF"

text \<open>
  The strict UTF-8 decoder accepts exactly the well-formed sequences: no overlong form,
  no surrogate, nothing above U+10FFFF. It is the automaton over the bytes whose states
  say what the bytes seen so far still require: nothing (\<open>U_START\<close>), one, two or
  three continuation bytes, or a second byte in the range that the lead byte E0, ED, F0
  or F4 allows.
\<close>

datatype utf8_state = U_START | U_CONT1 | U_CONT2 | U_CONT3 | U_E0 | U_ED | U_F0 | U_F4

definition utf8_step :: "utf8_state \<Rightarrow> char \<Rightarrow> utf8_state option" where
  "utf8_step s b =
     (case s of
        U_START \<Rightarrow>
          (if byte_in b 0x00 0x7F then Some U_START
           else if byte_in b 0xC2 0xDF then Some U_CONT1
           else if byte_in b 0xE0 0xE0 then Some U_E0
           else if byte_in b 0xE1 0xEC \<or> byte_in b 0xEE 0xEF then Some U_CONT2
           else if byte_in b 0xED 0xED then Some U_ED
           else if byte_in b 0xF0 0xF0 then Some U_F0
           else if byte_in b 0xF1 0xF3 then Some U_CONT3
           else if byte_in b 0xF4 0xF4 then Some U_F4
           else None)
      | U_CONT1 \<Rightarrow> (if cont b then Some U_START else None)
      | U_CONT2 \<Rightarrow> (if cont b then Some U_CONT1 else None)
      | U_CONT3 \<Rightarrow> (if cont b then Some U_CONT2 else None)
      | U_E0 \<Rightarrow> (if byte_in b 0xA0 0xBF then Some U_CONT1 else None)
      | U_ED \<Rightarrow> (if byte_in b 0x80 0x9F then Some U_CONT1 else None)
      | U_F0 \<Rightarrow> (if byte_in b 0x90 0xBF then Some U_CONT2 else None)
      | U_F4 \<Rightarrow> (if byte_in b 0x80 0x8F then Some U_CONT2 else None))"

fun utf8_run :: "utf8_state \<Rightarrow> string \<Rightarrow> utf8_state option" where
  "utf8_run s [] = Some s"
| "utf8_run s (b # bs) =
     (case utf8_step s b of None \<Rightarrow> None | Some s' \<Rightarrow> utf8_run s' bs)"

definition utf8_valid :: "string \<Rightarrow> bool" where
  "utf8_valid bs = (utf8_run U_START bs = Some U_START)"

text \<open>\<open>line.replace(b'\x00', b'').decode('utf-8')\<close> for one line of the generator.\<close>

definition decode_line :: "string \<Rightarrow> error + string" where
  "decode_line line =
     (let s = strip_nul line in if utf8_valid s then Inr s else Inl UnicodeDecodeError)"

definition sanitize_lines :: "string \<Rightarrow> (error + string) list" where
  "sanitize_lines content = map decode_line (binary_lines content)"

subsection \<open>Text-mode reading\<close>

text \<open>Universal newlines: CR LF and a lone CR are read as LF.\<close>

fun universal_newlines :: "string \<Rightarrow> string" where
  "universal_newlines [] = []"
| "universal_newlines [c] = (if c = CR then [LF] else [c])"
| "universal_newlines (c # d # cs) =
     (if c = CR then (if d = LF then LF # universal_newlines cs
                      else LF # universal_newlines (d # cs))
      else c # universal_newlines (d # cs))"

text \<open>
  Iterating a file opened with \<open>'r'\<close>: the content is decoded (the whole content is
  checked at once here, where Python decodes chunk by chunk), newlines are translated and
  the lines are handed out.
\<close>

definition text_lines :: "string \<Rightarrow> (error + string) list" where
  "text_lines content =
     (if utf8_valid content then map Inr (binary_lines (universal_newlines content))
      else [Inl UnicodeDecodeError])"

subsection \<open>The CSV reader\<close>

datatype parser_state =
  START_RECORD | START_FIELD | IN_FIELD | IN_QUOTED_FIELD | QUOTE_IN_QUOTED_FIELD | EAT_CRNL

record reader =
  rd_state :: parser_state
  rd_fields :: "string list"
  rd_field :: string

definition parse_reset :: reader where
  "parse_reset = \<lparr>rd_state = START_RECORD, rd_fields = [], rd_field = []\<rparr>"

definition parse_save_field :: "reader \<Rightarrow> reader" where
  "parse_save_field r = r\<lparr>rd_fields := rd_fields r @ [rd_field r], rd_field := []\<rparr>"

definition parse_add_char :: "reader \<Rightarrow> char \<Rightarrow> reader" where
  "parse_add_char r c = r\<lparr>rd_field := rd_field r @ [c]\<rparr>"

text \<open>The state after a field or record ended at \<open>c\<close>; \<open>None\<close> is the end of a line.\<close>

definition after_eol :: "char option \<Rightarrow> parser_state" where
  "after_eol c = (if c = None then START_RECORD else EAT_CRNL)"

definition is_eol :: "char option \<Rightarrow> bool" where
  "is_eol c = (c = None \<or> c = Some LF \<or> c = Some CR)"

definition start_field :: "reader \<Rightarrow> char option \<Rightarrow> reader" where
  "start_field r c =
     (if is_eol c then (parse_save_field r)\<lparr>rd_state := after_eol c\<rparr>
      else if c = Some QUOTE then r\<lparr>rd_state := IN_QUOTED_FIELD\<rparr>
      else if c = Some COMMA then parse_save_field r
      else (parse_add_char r (the c))\<lparr>rd_state := IN_FIELD\<rparr>)"

definition parse_process_char :: "reader \<Rightarrow> char option \<Rightarrow> error + reader" where
  "parse_process_char r c =
     (case rd_state r of
        START_RECORD \<Rightarrow>
          (if c = None then Inr r
           else if c = Some LF \<or> c = Some CR then Inr (r\<lparr>rd_state := EAT_CRNL\<rparr>)
           else Inr (start_field (r\<lparr>rd_state := START_FIELD\<rparr>) c))
      | START_FIELD \<Rightarrow> Inr (start_field r c)
      | IN_FIELD \<Rightarrow>
          (if is_eol c then Inr ((parse_save_field r)\<lparr>rd_state := after_eol c\<rparr>)
           else if c = Some COMMA then Inr ((parse_save_field r)\<lparr>rd_state := START_FIELD\<rparr>)
           else Inr (parse_add_char r (the c)))
      | IN_QUOTED_FIELD \<Rightarrow>
          (if c = None then Inr r
           else if c = Some QUOTE then Inr (r\<lparr>rd_state := QUOTE_IN_QUOTED_FIELD\<rparr>)
           else Inr (parse_add_char r (the c)))
      | QUOTE_IN_QUOTED_FIELD \<Rightarrow>
          (if c = Some QUOTE then Inr ((parse_add_char r QUOTE)\<lparr>rd_state := IN_QUOTED_FIELD\<rparr>)
           else if c = Some COMMA then Inr ((parse_save_field r)\<lparr>rd_state := START_FIELD\<rparr>)
           else if is_eol c then Inr ((parse_save_field r)\<lparr>rd_state := after_eol c\<rparr>)
           else Inr ((parse_add_char r (the c))\<lparr>rd_state := IN_FIELD\<rparr>))
      | EAT_CRNL \<Rightarrow>
          (if c = Some LF \<or> c = Some CR then Inr r
           else if c = None then Inr (r\<lparr>rd_state := START_RECORD\<rparr>)
           else Inl CsvError))"

text \<open>One line: its characters, then the end-of-line mark.\<close>

fun parse_line :: "reader \<Rightarrow> string \<Rightarrow> error + reader" where
  "parse_line r [] = parse_process_char r None"
| "parse_line r (c # cs) =
     (case parse_process_char r (Some c) of
        Inl e \<Rightarrow> Inl e
      | Inr r' \<Rightarrow> parse_line r' cs)"

text \<open>
  The reader pulls lines until a record is complete. A line that raises ends the
  iteration with that error; the records returned before it have been handed to the
  consumer already. At the end of the input an unfinished record is returned if a field
  is pending or a quoted field is open.
\<close>

fun read_rows :: "reader \<Rightarrow> (error + string) list \<Rightarrow> row list \<times> error option" where
  "read_rows r [] =
     (if rd_field r \<noteq> [] \<or> rd_state r = IN_QUOTED_FIELD
      then ([rd_fields (parse_save_field r)], None) else ([], None))"
| "read_rows r (Inl e # ls) = ([], Some e)"
| "read_rows r (Inr l # ls) =
     (case parse_line r l of
        Inl e \<Rightarrow> ([], Some e)
      | Inr r' \<Rightarrow>
          if rd_state r' = START_RECORD
          then (case read_rows parse_reset ls of (rows, err) \<Rightarrow> (rd_fields r' # rows, err))
          else read_rows r' ls)"

definition csv_reader :: "(error + string) list \<Rightarrow> row list \<times> error option" where
  "csv_reader ls = read_rows parse_reset ls"

subsection \<open>The CSV writer\<close>

definition special :: "char \<Rightarrow> bool" where
  "special c = (c = COMMA \<or> c = QUOTE \<or> c = CR \<or> c = LF)"

text \<open>The characters of a field, a quote character doubled.\<close>

fun join_append_data :: "string \<Rightarrow> string" where
  "join_append_data [] = []"
| "join_append_data (c # cs) =
     (if c = QUOTE then QUOTE # QUOTE # join_append_data cs else c # join_append_data cs)"

definition join_append :: "string \<Rightarrow> string" where
  "join_append f =
     (if list_ex special f then [QUOTE] @ join_append_data f @ [QUOTE] else f)"

fun join_fields :: "row \<Rightarrow> string" where
  "join_fields [] = []"
| "join_fields [f] = join_append f"
| "join_fields (f # g # fs) = join_append f @ [COMMA] @ join_fields (g # fs)"

text \<open>
  \<open>writer.writerow\<close>: the fields joined by commas; a record whose text would be empty
  although it has a field (one empty field) is written as a quoted empty field; then
  the line terminator. An empty record is the line terminator alone.
\<close>

definition writerow :: "row \<Rightarrow> string" where
  "writerow line =
     (let rec = join_fields line
      in (if line \<noteq> [] \<and> rec = [] then [QUOTE, QUOTE] else rec) @ [CR, LF])"

subsection \<open>The file system\<close>

type_synonym fs = "string \<rightharpoonup> string"

datatype fs_op =
  OpenW string
| Write string string
| Replace string string

fun apply_op :: "fs_op \<Rightarrow> fs \<Rightarrow> fs" where
  "apply_op (OpenW p) m = m(p \<mapsto> [])"
| "apply_op (Write p s) m = m(p \<mapsto> (case m p of None \<Rightarrow> s | Some old \<Rightarrow> old @ s))"
| "apply_op (Replace src dst) m =
     (case m src of None \<Rightarrow> m | Some c \<Rightarrow> (m(dst \<mapsto> c))(src := None))"

fun run :: "fs_op list \<Rightarrow> fs \<Rightarrow> fs" where
  "run [] m = m"
| "run (op # ops) m = run ops (apply_op op m)"

text \<open>Every file-system state an observer can see while the operations run.\<close>

fun trace :: "fs_op list \<Rightarrow> fs \<Rightarrow> fs list" where
  "trace [] m = [m]"
| "trace (op # ops) m = m # trace ops (apply_op op m)"

subsection \<open>Sanitization (lines 125 to 133 of \<open>preprocess\<close>)\<close>

definition sanitize_rows :: "string \<Rightarrow> row list \<times> error option" where
  "sanitize_rows content = csv_reader (sanitize_lines content)"

definition writerows :: "row list \<Rightarrow> string" where
  "writerows rows = concat (map writerow rows)"

definition sanitize_ops :: "string \<Rightarrow> string \<Rightarrow> fs_op list \<times> error option" where
  "sanitize_ops fp content =
     (let tmp = fp @ ''_tmp'';
          (rows, err) = sanitize_rows content
      in (OpenW tmp # map (\<lambda>r. Write tmp (writerow r)) rows
            @ (case err of None \<Rightarrow> [Replace tmp fp] | Some e \<Rightarrow> []),
          err))"

subsection \<open>Scanning (lines 135 to 147 of \<open>preprocess\<close>)\<close>

datatype log_entry =
  Malformed nat string
| Fixing string
| EmptyLine nat string
| Combined nat nat string

type_synonym dict = "(nat \<times> row) list"

text \<open>\<open>len(list(filter(None, line)))\<close>\<close>

definition populated :: "row \<Rightarrow> nat" where
  "populated line = length (filter (\<lambda>f. f \<noteq> []) line)"

fun scan_rows ::
  "string \<Rightarrow> nat \<Rightarrow> nat \<Rightarrow> dict \<Rightarrow> log_entry list \<Rightarrow> row list \<Rightarrow> dict \<times> log_entry list" where
  "scan_rows fp len idx malformed lg [] = (malformed, lg)"
| "scan_rows fp len idx malformed lg (line # rest) =
     (let check = populated line
      in if check < len \<and> check > 0
         then scan_rows fp len (Suc idx) (AList.update idx line malformed)
                (lg @ [Malformed idx fp]) rest
         else scan_rows fp len (Suc idx) malformed lg rest)"

subsection \<open>\<open>fix_bad_line\<close>\<close>

text \<open>Truth value of the result of \<open>dict.get\<close>: neither \<open>None\<close> nor an empty list.\<close>

definition truthy :: "row option \<Rightarrow> bool" where
  "truthy v = (case v of None \<Rightarrow> False | Some l \<Rightarrow> l \<noteq> [])"

text \<open>One pass of the loop body: the rows written and the messages logged.\<close>

definition fix_row ::
  "string \<Rightarrow> dict \<Rightarrow> nat \<Rightarrow> nat \<Rightarrow> row \<Rightarrow> row list \<times> log_entry list" where
  "fix_row file_path corrupt_map num_cols idx line =
     (if map_of corrupt_map idx = None \<and> line \<noteq> [] then ([line], [])
      else if length line = 0 then ([], [EmptyLine idx file_path])
      else
        (let this_line = map_of corrupt_map idx;
             next_line = map_of corrupt_map (idx + 1)
         in if truthy this_line \<and> truthy next_line
            then (if length (the this_line) + length (the next_line) = num_cols
                  then ([the this_line @ the next_line],
                        [Combined idx (idx + 1) file_path])
                  else ([], []))
            else ([], [])))"

fun fix_rows ::
  "string \<Rightarrow> dict \<Rightarrow> nat \<Rightarrow> nat \<Rightarrow> row list \<Rightarrow> row list \<times> log_entry list" where
  "fix_rows file_path corrupt_map num_cols idx [] = ([], [])"
| "fix_rows file_path corrupt_map num_cols idx (line # rest) =
     (case fix_row file_path corrupt_map num_cols idx line of (out, lg) \<Rightarrow>
        (case fix_rows file_path corrupt_map num_cols (Suc idx) rest of (out', lg') \<Rightarrow>
           (out @ out', lg @ lg')))"

definition fix_bad_line ::
  "string \<Rightarrow> dict \<Rightarrow> nat \<Rightarrow> fs \<Rightarrow> fs_op list \<times> log_entry list \<times> error option" where
  "fix_bad_line file_path corrupt_map num_cols m =
     (let tmp = file_path @ ''_tmp''
      in case m file_path of
           None \<Rightarrow> ([], [], Some FileNotFoundError)
         | Some content \<Rightarrow>
             (case csv_reader (text_lines content) of (rows, err) \<Rightarrow>
                (case fix_rows file_path corrupt_map num_cols 1 rows of (out, lg) \<Rightarrow>
                   (OpenW tmp # map (\<lambda>r. Write tmp (writerow r)) out
                      @ (case err of None \<Rightarrow> [Replace tmp file_path] | Some e \<Rightarrow> []),
                    lg, err))))"

subsection \<open>\<open>preprocess\<close>\<close>

text \<open>
  The second half of the loop body: the header gives the number of columns, the data
  rows are numbered from 2, and \<open>fix_bad_line\<close> runs when a row was malformed.
\<close>

definition scan_and_fix :: "string \<Rightarrow> fs \<Rightarrow> fs_op list \<times> log_entry list \<times> error option" where
  "scan_and_fix fp m =
     (case m fp of
        None \<Rightarrow> ([], [], Some FileNotFoundError)
      | Some content \<Rightarrow>
          (case csv_reader (text_lines content) of
             ([], err) \<Rightarrow> ([], [], Some (case err of None \<Rightarrow> StopIteration | Some e \<Rightarrow> e))
           | (headers # rows, err) \<Rightarrow>
               (let len = length headers;
                    (malformed, lg) = scan_rows fp len 2 [] [] rows
                in case err of
                     Some e \<Rightarrow> ([], lg, Some e)
                   | None \<Rightarrow>
                       if malformed \<noteq> []
                       then (case fix_bad_line fp malformed len m of (ops, lg', err') \<Rightarrow>
                               (ops, lg @ [Fixing fp] @ lg', err'))
                       else ([], lg, None))))"

text \<open>
  One file of the loop of \<open>preprocess\<close>. \<open>dat\<close> is the data directory \<open>DATA\<close>; the
  file names are the bare names \<open>get_data_file_names\<close> returns.
\<close>

definition preprocess_file ::
  "string \<Rightarrow> string \<Rightarrow> fs \<Rightarrow> fs_op list \<times> log_entry list \<times> error option" where
  "preprocess_file dat fin m =
     (let fp = dat @ ''/'' @ fin
      in case m fp of
           None \<Rightarrow> ([], [], Some FileNotFoundError)
         | Some content \<Rightarrow>
             (case sanitize_ops fp content of
                (ops1, Some e) \<Rightarrow> (ops1, [], Some e)
              | (ops1, None) \<Rightarrow>
                  (case scan_and_fix fp (run ops1 m) of (ops2, lg, err) \<Rightarrow>
                     (ops1 @ ops2, lg, err))))"

record state =
  files :: fs
  logged :: "log_entry list"

text \<open>
  The loop over the files. Nothing catches an exception: the first error ends the loop
  and leaves \<open>preprocess\<close>.
\<close>

fun preprocess :: "string \<Rightarrow> string list \<Rightarrow> state \<Rightarrow> error option \<times> state" where
  "preprocess dat [] st = (None, st)"
| "preprocess dat (fin # rest) st =
     (case preprocess_file dat fin (files st) of (ops, lg, err) \<Rightarrow>
        (let st' = \<lparr>files = run ops (files st), logged = logged st @ lg\<rparr>
         in case err of
              Some e \<Rightarrow> (Some e, st')
            | None \<Rightarrow> preprocess dat rest st'))"

subsection \<open>Notions used to state the properties\<close>

text \<open>The line numbers a log message names.\<close>

fun cites :: "nat \<Rightarrow> log_entry \<Rightarrow> bool" where
  "cites k (Malformed n f) = (n = k)"
| "cites k (Fixing f) = False"
| "cites k (EmptyLine n f) = (n = k)"
| "cites k (Combined a b f) = (a = k \<or> b = k)"

text \<open>A disk given by the list of its files, path and content.\<close>

definition disk :: "(string \<times> string) list \<Rightarrow> state" where
  "disk fl = \<lparr>files = map_of fl, logged = []\<rparr>"

text \<open>
  The rows \<open>fix_bad_line\<close> writes for a file of content \<open>c\<close> when \<open>preprocess\<close>
  calls it: the dictionary and the number of columns are those of the scan of \<open>c\<close>.
\<close>

definition repaired_rows :: "string \<Rightarrow> string \<Rightarrow> row list" where
  "repaired_rows fp c =
     (case fst (csv_reader (text_lines c)) of
        [] \<Rightarrow> []
      | headers # rows \<Rightarrow>
          fst (fix_rows fp (fst (scan_rows fp (length headers) 2 [] [] rows))
                 (length headers) 1 (headers # rows)))"

subsection \<open>The reader over one stream of events\<close>

text \<open>
  For the proofs the lines handed to the reader are laid out as one stream: the
  characters of each line, then the mark \<open>None\<close> of its end. \<open>run_events\<close> is
  \<open>read_rows\<close> over that stream, and \<open>expand\<close> is the stream of the lines of a
  text whose last line, if any, ends with LF.
\<close>

definition line_events :: "string \<Rightarrow> char option list" where
  "line_events l = map Some l @ [None]"

definition events :: "string list \<Rightarrow> char option list" where
  "events ls = concat (map line_events ls)"

fun run_events :: "reader \<Rightarrow> char option list \<Rightarrow> row list \<times> error option" where
  "run_events r [] =
     (if rd_field r \<noteq> [] \<or> rd_state r = IN_QUOTED_FIELD
      then ([rd_fields (parse_save_field r)], None) else ([], None))"
| "run_events r (e # es) =
     (case parse_process_char r e of
        Inl err \<Rightarrow> ([], Some err)
      | Inr r' \<Rightarrow>
          if e = None \<and> rd_state r' = START_RECORD
          then (case run_events parse_reset es of (rows, err) \<Rightarrow> (rd_fields r' # rows, err))
          else run_events r' es)"

fun expand :: "string \<Rightarrow> char option list" where
  "expand [] = []"
| "expand (c # cs) = (if c = LF then Some LF # None # expand cs else Some c # expand cs)"

text \<open>
  \<open>writerow\<close> with the line terminator as a parameter: read back in text mode, the
  terminator CR LF of the writer is the single character LF.
\<close>

definition write_with :: "string \<Rightarrow> row \<Rightarrow> string" where
  "write_with t line =
     (let rec = join_fields line
      in (if line \<noteq> [] \<and> rec = [] then [QUOTE, QUOTE] else rec) @ t)"

subsection \<open>Facts about scanning and repairing\<close>

lemma scan_rows_map_of:
  "map_of (fst (scan_rows fp len idx m lg rows)) k =
     (if idx \<le> k \<and> k < idx + length rows \<and> 0 < populated (rows ! (k - idx))
         \<and> populated (rows ! (k - idx)) < len
      then Some (rows ! (k - idx)) else map_of m k)"
proof (induction rows arbitrary: idx m lg)
  case Nil
  then show ?case by auto
next
  case (Cons line rest)
  show ?case
  proof (cases "idx = k")
    case True
    then show ?thesis by (simp add: Cons.IH Let_def update_conv')
  next
    case False
    show ?thesis
    proof (cases "k < idx")
      case True
      then show ?thesis by (simp add: Cons.IH Let_def update_conv')
    next
      case F2: False
      with False have "k - idx = Suc (k - Suc idx)" "Suc idx \<le> k" by arith+
      with False show ?thesis
        by (simp add: Cons.IH Let_def update_conv')
    qed
  qed
qed

lemma scan_rows_zero: "scan_rows fp 0 idx m lg rows = (m, lg)"
  by (induction rows arbitrary: idx m lg) simp_all

lemma fix_rows_append:
  "fix_rows fp cm N idx (xs @ ys) =
     (fst (fix_rows fp cm N idx xs) @ fst (fix_rows fp cm N (idx + length xs) ys),
      snd (fix_rows fp cm N idx xs) @ snd (fix_rows fp cm N (idx + length xs) ys))"
  by (induction xs arbitrary: idx) (simp_all add: split_beta)

lemma fix_rows_Cons:
  "fix_rows fp cm N idx (x # ys) =
     (fst (fix_row fp cm N idx x) @ fst (fix_rows fp cm N (Suc idx) ys),
      snd (fix_row fp cm N idx x) @ snd (fix_rows fp cm N (Suc idx) ys))"
  by (simp add: split_beta)


lemma fix_row_out:
  "r \<in> set (fst (fix_row fp cm N idx line)) \<Longrightarrow>
     (r = line \<and> map_of cm idx = None \<and> line \<noteq> []) \<or>
     (\<exists>x y. map_of cm idx = Some x \<and> map_of cm (idx + 1) = Some y \<and> x \<noteq> [] \<and> y \<noteq> []
         \<and> r = x @ y \<and> length x + length y = N)"
  by (auto simp: fix_row_def truthy_def Let_def split: if_splits option.splits)


lemma fix_rows_out:
  "r \<in> set (fst (fix_rows fp cm N idx rows)) \<Longrightarrow>
     (\<exists>i<length rows. r = rows ! i \<and> map_of cm (idx + i) = None \<and> r \<noteq> []) \<or>
     (\<exists>k x y. map_of cm k = Some x \<and> map_of cm (k + 1) = Some y \<and> x \<noteq> [] \<and> y \<noteq> []
         \<and> r = x @ y \<and> length x + length y = N)"
proof (induction rows arbitrary: idx)
  case Nil
  then show ?case by simp
next
  case (Cons line rest)
  from Cons.prems
  have "r \<in> set (fst (fix_row fp cm N idx line)) \<or>
        r \<in> set (fst (fix_rows fp cm N (Suc idx) rest))"
    by (simp add: split_beta)
  then show ?case
  proof
    assume "r \<in> set (fst (fix_row fp cm N idx line))"
    from fix_row_out[OF this] show ?thesis
    proof
      assume "r = line \<and> map_of cm idx = None \<and> line \<noteq> []"
      then have "0 < length (line # rest) \<and> r = (line # rest) ! 0
                 \<and> map_of cm (idx + 0) = None \<and> r \<noteq> []" by simp
      then show ?thesis by blast
    next
      assume "\<exists>x y. map_of cm idx = Some x \<and> map_of cm (idx + 1) = Some y \<and> x \<noteq> []
                \<and> y \<noteq> [] \<and> r = x @ y \<and> length x + length y = N"
      then show ?thesis by blast
    qed
  next
    assume "r \<in> set (fst (fix_rows fp cm N (Suc idx) rest))"
    from Cons.IH[OF this] show ?thesis
    proof
      assume "\<exists>i<length rest. r = rest ! i \<and> map_of cm (Suc idx + i) = None \<and> r \<noteq> []"
      then obtain i where "i < length rest" "r = rest ! i"
        "map_of cm (Suc idx + i) = None" "r \<noteq> []" by blast
      then have "Suc i < length (line # rest) \<and> r = (line # rest) ! Suc i
                 \<and> map_of cm (idx + Suc i) = None \<and> r \<noteq> []" by simp
      then show ?thesis by blast
    next
      assume "\<exists>k x y. map_of cm k = Some x \<and> map_of cm (k + 1) = Some y \<and> x \<noteq> []
                \<and> y \<noteq> [] \<and> r = x @ y \<and> length x + length y = N"
      then show ?thesis by blast
    qed
  qed
qed

lemma scan_rows_log:
  "e \<in> set (snd (scan_rows fp len idx m lg rows)) \<Longrightarrow>
     e \<in> set lg \<or>
     (\<exists>i<length rows. e = Malformed (idx + i) fp \<and> 0 < populated (rows ! i)
        \<and> populated (rows ! i) < len)"
proof (induction rows arbitrary: idx m lg)
  case Nil
  then show ?case by simp
next
  case (Cons line rest)
  show ?case
  proof (cases "populated line < len \<and> 0 < populated line")
    case True
    with Cons.prems
    have "e \<in> set (snd (scan_rows fp len (Suc idx) (AList.update idx line m)
                        (lg @ [Malformed idx fp]) rest))"
      by (simp add: Let_def)
    from Cons.IH[OF this] show ?thesis
    proof
      assume "e \<in> set (lg @ [Malformed idx fp])"
      then have "e \<in> set lg \<or> e = Malformed idx fp" by auto
      then show ?thesis
      proof
        assume "e = Malformed idx fp"
        with True have "0 < length (line # rest) \<and> e = Malformed (idx + 0) fp
          \<and> 0 < populated ((line # rest) ! 0) \<and> populated ((line # rest) ! 0) < len"
          by simp
        then show ?thesis by blast
      qed simp
    next
      assume "\<exists>i<length rest. e = Malformed (Suc idx + i) fp \<and> 0 < populated (rest ! i)
                \<and> populated (rest ! i) < len"
      then obtain i where "i < length rest" "e = Malformed (Suc idx + i) fp"
        "0 < populated (rest ! i)" "populated (rest ! i) < len" by blast
      then have "Suc i < length (line # rest) \<and> e = Malformed (idx + Suc i) fp
          \<and> 0 < populated ((line # rest) ! Suc i) \<and> populated ((line # rest) ! Suc i) < len"
        by simp
      then show ?thesis by blast
    qed
  next
    case False
    with Cons.prems
    have "e \<in> set (snd (scan_rows fp len (Suc idx) m lg rest))"
      by (auto simp: Let_def)
    from Cons.IH[OF this] show ?thesis
    proof
      assume "\<exists>i<length rest. e = Malformed (Suc idx + i) fp \<and> 0 < populated (rest ! i)
                \<and> populated (rest ! i) < len"
      then obtain i where "i < length rest" "e = Malformed (Suc idx + i) fp"
        "0 < populated (rest ! i)" "populated (rest ! i) < len" by blast
      then have "Suc i < length (line # rest) \<and> e = Malformed (idx + Suc i) fp
          \<and> 0 < populated ((line # rest) ! Suc i) \<and> populated ((line # rest) ! Suc i) < len"
        by simp
      then show ?thesis by blast
    qed simp
  qed
qed

subsection \<open>Claims about the repair loop\<close>

text \<open>
  C9. Whenever a pass of the loop of \<open>fix_bad_line\<close> takes the merge branch (it logs
  the combination of two lines), it writes exactly one row, the row of the dictionary at
  \<open>idx\<close> followed by the row at \<open>idx + 1\<close>, and that row has exactly \<open>num_cols\<close>
  fields.
\<close>

theorem merged_row_has_num_cols:
  assumes "fix_row fp cm num_cols idx line = (out, lg)"
    and "Combined i j f \<in> set lg"
  shows "\<exists>this_line next_line.
           map_of cm idx = Some this_line \<and> map_of cm (idx + 1) = Some next_line
           \<and> out = [this_line @ next_line]
           \<and> length (this_line @ next_line) = num_cols"
  using assms
  by (auto simp: fix_row_def truthy_def Let_def split: if_splits option.splits)

theorem merged_row_has_num_cols_witness:
  "fix_row ''f'' [(2, [''1'', ''2'']), (3, [''3''])] 3 2 [''1'', ''2'']
     = ([[''1'', ''2'', ''3'']], [Combined 2 3 ''f''])
   \<and> (\<exists>this_line next_line.
        map_of [(2::nat, [''1'', ''2'']), (3, [''3''])] 2 = Some this_line
        \<and> map_of [(2::nat, [''1'', ''2'']), (3, [''3''])] (2 + 1) = Some next_line
        \<and> [[''1'', ''2'', ''3'']] = [this_line @ next_line]
        \<and> length (this_line @ next_line) = (3::nat))"
proof -
  have run: "fix_row ''f'' [(2, [''1'', ''2'']), (3, [''3''])] 3 2 [''1'', ''2'']
     = ([[''1'', ''2'', ''3'']], [Combined 2 3 ''f''])"
    by (simp add: fix_row_def truthy_def)
  have "Combined 2 3 ''f'' \<in> set [Combined 2 3 ''f'']" by simp
  from merged_row_has_num_cols[OF run this] run show ?thesis by blast
qed

text \<open>
  C10. A data row whose populated count is at least the number of columns \<open>N\<close> (more
  populated fields than the header has included) is not entered into the dictionary of
  malformed rows, and no message is logged for it by the scan. When the repair runs
  (the dictionary is not empty), the pass of the loop at that row writes the row itself
  and nothing else, so the output holds the row unchanged between the output for the
  rows before it and the output for the rows after it.
\<close>

theorem full_row_copied_through:
  assumes scan: "scan_rows fp N 2 [] [] rows = (cm, lg)"
    and i: "i < length rows"
    and full: "N \<le> populated (rows ! i)"
  shows "map_of cm (i + 2) = None
       \<and> Malformed (i + 2) fp \<notin> set lg
       \<and> (cm \<noteq> [] \<longrightarrow>
            fix_row fp cm N (i + 2) (rows ! i) = ([rows ! i], [])
          \<and> fst (fix_rows fp cm N 1 (headers # rows)) =
              fst (fix_rows fp cm N 1 (headers # take i rows)) @ [rows ! i]
                @ fst (fix_rows fp cm N (i + 3) (drop (Suc i) rows)))"
proof -
  have cm: "cm = fst (scan_rows fp N 2 [] [] rows)" and lg: "lg = snd (scan_rows fp N 2 [] [] rows)"
    using scan by simp_all
  have none: "map_of cm (i + 2) = None"
    unfolding cm using full by (simp add: scan_rows_map_of)
  have nolog: "Malformed (i + 2) fp \<notin> set lg"
  proof
    assume "Malformed (i + 2) fp \<in> set lg"
    then have "Malformed (i + 2) fp \<in> set (snd (scan_rows fp N 2 [] [] rows))"
      by (simp add: lg)
    from scan_rows_log[OF this] full show False by auto
  qed
  have rest: "fix_row fp cm N (i + 2) (rows ! i) = ([rows ! i], [])
          \<and> fst (fix_rows fp cm N 1 (headers # rows)) =
              fst (fix_rows fp cm N 1 (headers # take i rows)) @ [rows ! i]
                @ fst (fix_rows fp cm N (i + 3) (drop (Suc i) rows))" if ne: "cm \<noteq> []"
  proof -
    have "N \<noteq> 0"
    proof
      assume "N = 0"
      with scan have "cm = []" by (simp add: scan_rows_zero)
      with ne show False by simp
    qed
    with full have "populated (rows ! i) \<noteq> 0" by simp
    then have nonempty: "rows ! i \<noteq> []" by (auto simp: populated_def)
    with none have row: "fix_row fp cm N (i + 2) (rows ! i) = ([rows ! i], [])"
      by (simp add: fix_row_def)
    have split: "headers # rows = (headers # take i rows) @ rows ! i # drop (Suc i) rows"
      using i by (simp add: id_take_nth_drop[symmetric])
    have len: "1 + length (headers # take i rows) = i + 2" using i by simp
    have here: "fst (fix_rows fp cm N (i + 2) (rows ! i # drop (Suc i) rows)) =
                  [rows ! i] @ fst (fix_rows fp cm N (i + 3) (drop (Suc i) rows))"
    proof -
      have s: "Suc (i + 2) = i + 3" by simp
      have "fst (fix_rows fp cm N (i + 2) (rows ! i # drop (Suc i) rows)) =
              fst (fix_row fp cm N (i + 2) (rows ! i))
                @ fst (fix_rows fp cm N (Suc (i + 2)) (drop (Suc i) rows))"
        by (simp only: fix_rows_Cons fst_conv)
      then show ?thesis by (simp only: row s fst_conv)
    qed
    have "fst (fix_rows fp cm N 1 ((headers # take i rows) @ rows ! i # drop (Suc i) rows)) =
              fst (fix_rows fp cm N 1 (headers # take i rows)) @ [rows ! i]
                @ fst (fix_rows fp cm N (i + 3) (drop (Suc i) rows))"
      unfolding fix_rows_append[of fp cm N 1 "headers # take i rows"] len
      by (simp only: fst_conv here)
    with row split show ?thesis by simp
  qed
  from none nolog rest show ?thesis by blast
qed


theorem full_row_copied_through_witness:
  "scan_rows ''f'' 3 2 [] [] [[''1'', ''2'', ''3'', ''4''], [''x'']]
     = ([(3, [''x''])], [Malformed 3 ''f''])
   \<and> 3 \<le> populated ([[''1'', ''2'', ''3'', ''4''], [''x'']] ! 0)
   \<and> map_of [(3::nat, [''x''])] 2 = None
   \<and> Malformed 2 ''f'' \<notin> set [Malformed 3 ''f'']
   \<and> fix_row ''f'' [(3, [''x''])] 3 2 [''1'', ''2'', ''3'', ''4'']
       = ([[''1'', ''2'', ''3'', ''4'']], [])
   \<and> fst (fix_rows ''f'' [(3, [''x''])] 3 1
            [[''a'', ''b'', ''c''], [''1'', ''2'', ''3'', ''4''], [''x'']])
       = [[''a'', ''b'', ''c''], [''1'', ''2'', ''3'', ''4'']]"
proof -
  have scan: "scan_rows ''f'' 3 2 [] [] [[''1'', ''2'', ''3'', ''4''], [''x'']]
     = ([(3, [''x''])], [Malformed 3 ''f''])"
    by (simp add: populated_def)
  have i: "0 < length [[''1'', ''2'', ''3'', ''4''], [''x'']]" by simp
  have full: "3 \<le> populated ([[''1'', ''2'', ''3'', ''4''], [''x'']] ! 0)"
    by (simp add: populated_def)
  show ?thesis
    using full_row_copied_through[OF scan i full, of "[''a'', ''b'', ''c'']"] scan full
    by (simp add: fix_row_def truthy_def)
qed

lemma populated_pos_nonempty: "0 < populated line \<Longrightarrow> line \<noteq> []"
  by (auto simp: populated_def)

lemma scan_malformed_never_written:
  assumes scan: "scan_rows fp (length headers) 2 [] [] rows = (cm, lg)"
    and r: "0 < populated r" "populated r < length headers"
    and short: "length r < length headers"
  shows "r \<notin> set (fst (fix_rows fp cm (length headers) 1 (headers # rows)))"
proof
  assume "r \<in> set (fst (fix_rows fp cm (length headers) 1 (headers # rows)))"
  from fix_rows_out[OF this] show False
  proof
    assume "\<exists>i<length (headers # rows). r = (headers # rows) ! i
              \<and> map_of cm (1 + i) = None \<and> r \<noteq> []"
    then obtain i where i: "i < length (headers # rows)" "r = (headers # rows) ! i"
      "map_of cm (1 + i) = None" by blast
    show False
    proof (cases i)
      case 0
      with i short show False by simp
    next
      case (Suc j)
      with i have j: "j < length rows" "r = rows ! j" by simp_all
      have "cm = fst (scan_rows fp (length headers) 2 [] [] rows)" using scan by simp
      then have "map_of cm (j + 2) = Some (rows ! j)"
        using j r by (simp add: scan_rows_map_of)
      with i Suc show False by simp
    qed
  next
    assume "\<exists>k x y. map_of cm k = Some x \<and> map_of cm (k + 1) = Some y \<and> x \<noteq> [] \<and> y \<noteq> []
              \<and> r = x @ y \<and> length x + length y = length headers"
    with short show False by auto
  qed
qed

text \<open>
  C1, as the code has it. The test of the merge branch adds the raw field counts
  \<open>len(this_line) + len(next_line)\<close>, not the populated counts. For two adjacent
  malformed rows whose raw field counts add up to the number of columns, the pass at the
  first row writes exactly one row, the fields of the first followed by the fields of the
  second, with as many fields as the header, and logs the combination; the output is the
  output for the rows before, that row, and the output of the loop continued at the
  second row. Neither of the two rows is written on its own anywhere in the output.
\<close>

theorem adjacent_rows_merged_on_raw_length:
  assumes scan: "scan_rows fp (length headers) 2 [] [] (pre @ a # b # post) = (cm, lg)"
    and a: "0 < populated a" "populated a < length headers"
    and b: "0 < populated b" "populated b < length headers"
    and sum: "length a + length b = length headers"
  shows "fix_row fp cm (length headers) (length pre + 2) a
           = ([a @ b], [Combined (length pre + 2) (length pre + 3) fp])
       \<and> fst (fix_rows fp cm (length headers) 1 (headers # pre @ a # b # post))
           = fst (fix_rows fp cm (length headers) 1 (headers # pre)) @ [a @ b]
               @ fst (fix_rows fp cm (length headers) (length pre + 3) (b # post))
       \<and> length (a @ b) = length headers
       \<and> a \<notin> set (fst (fix_rows fp cm (length headers) 1 (headers # pre @ a # b # post)))
       \<and> b \<notin> set (fst (fix_rows fp cm (length headers) 1 (headers # pre @ a # b # post)))"
proof -
  let ?N = "length headers"
  have cm: "cm = fst (scan_rows fp ?N 2 [] [] (pre @ a # b # post))" using scan by simp
  have at_a: "map_of cm (length pre + 2) = Some a"
    unfolding cm using a by (simp add: scan_rows_map_of)
  have "(pre @ a # b # post) ! Suc (length pre) = b"
    by (simp add: nth_append)
  then have at_b: "map_of cm (length pre + 3) = Some b"
    unfolding cm using b by (simp add: scan_rows_map_of Suc_diff_le)
  have ne: "a \<noteq> []" "b \<noteq> []"
    using a b by (auto dest: populated_pos_nonempty)
  have s: "length pre + 2 + 1 = length pre + 3" by simp
  have row: "fix_row fp cm ?N (length pre + 2) a
           = ([a @ b], [Combined (length pre + 2) (length pre + 3) fp])"
    unfolding fix_row_def s using at_a at_b ne sum by (simp add: truthy_def)
  have len: "1 + length (headers # pre) = length pre + 2" by simp
  have s2: "Suc (length pre + 2) = length pre + 3" by simp
  have "fst (fix_rows fp cm ?N (length pre + 2) (a # b # post)) =
          fst (fix_row fp cm ?N (length pre + 2) a)
            @ fst (fix_rows fp cm ?N (Suc (length pre + 2)) (b # post))"
    by (simp only: fix_rows_Cons fst_conv)
  then have here: "fst (fix_rows fp cm ?N (length pre + 2) (a # b # post)) =
          [a @ b] @ fst (fix_rows fp cm ?N (length pre + 3) (b # post))"
    by (simp only: row s2 fst_conv)
  have "fst (fix_rows fp cm ?N 1 ((headers # pre) @ a # b # post))
         = fst (fix_rows fp cm ?N 1 (headers # pre)) @ [a @ b]
               @ fst (fix_rows fp cm ?N (length pre + 3) (b # post))"
    unfolding fix_rows_append[of fp cm ?N 1 "headers # pre"] len
    by (simp only: fst_conv here)
  then have whole: "fst (fix_rows fp cm ?N 1 (headers # pre @ a # b # post))
         = fst (fix_rows fp cm ?N 1 (headers # pre)) @ [a @ b]
               @ fst (fix_rows fp cm ?N (length pre + 3) (b # post))"
    by simp
  have short: "length a < ?N" "length b < ?N"
    using ne sum by (cases a; cases b; simp)+
  have na: "a \<notin> set (fst (fix_rows fp cm ?N 1 (headers # pre @ a # b # post)))"
    by (rule scan_malformed_never_written[OF scan a short(1)])
  have nb: "b \<notin> set (fst (fix_rows fp cm ?N 1 (headers # pre @ a # b # post)))"
    by (rule scan_malformed_never_written[OF scan b short(2)])
  from row whole sum na nb show ?thesis by simp
qed

theorem adjacent_rows_merged_on_raw_length_witness:
  "scan_rows ''f'' (length [''a'', ''b'', ''c'', ''d'']) 2 [] []
       ([] @ [''1'', ''2''] # [''3'', ''4''] # [])
     = ([(2, [''1'', ''2'']), (3, [''3'', ''4''])], [Malformed 2 ''f'', Malformed 3 ''f''])
   \<and> populated [''1'', ''2''] = 2 \<and> populated [''3'', ''4''] = 2
   \<and> fix_row ''f'' [(2, [''1'', ''2'']), (3, [''3'', ''4''])] 4 2 [''1'', ''2'']
       = ([[''1'', ''2'', ''3'', ''4'']], [Combined 2 3 ''f''])
   \<and> fst (fix_rows ''f'' [(2, [''1'', ''2'']), (3, [''3'', ''4''])] 4 1
            [[''a'', ''b'', ''c'', ''d''], [''1'', ''2''], [''3'', ''4'']])
       = [[''a'', ''b'', ''c'', ''d''], [''1'', ''2'', ''3'', ''4'']]
   \<and> [''1'', ''2''] \<notin> set (fst (fix_rows ''f'' [(2, [''1'', ''2'']), (3, [''3'', ''4''])] 4 1
            [[''a'', ''b'', ''c'', ''d''], [''1'', ''2''], [''3'', ''4'']]))"
proof -
  have scan: "scan_rows ''f'' (length [''a'', ''b'', ''c'', ''d'']) 2 [] []
       ([] @ [''1'', ''2''] # [''3'', ''4''] # [])
     = ([(2, [''1'', ''2'']), (3, [''3'', ''4''])], [Malformed 2 ''f'', Malformed 3 ''f''])"
    by (simp add: populated_def)
  have a: "0 < populated [''1'', ''2'']"
    "populated [''1'', ''2''] < length [''a'', ''b'', ''c'', ''d'']"
    by (simp_all add: populated_def)
  have b: "0 < populated [''3'', ''4'']"
    "populated [''3'', ''4''] < length [''a'', ''b'', ''c'', ''d'']"
    by (simp_all add: populated_def)
  have sum: "length [''1'', ''2''] + length [''3'', ''4''] = length [''a'', ''b'', ''c'', ''d'']"
    by simp
  have pop: "populated [''1'', ''2''] = 2 \<and> populated [''3'', ''4''] = 2"
    by (simp add: populated_def)
  show ?thesis
    using adjacent_rows_merged_on_raw_length[OF scan a b sum] scan pop
    by (simp add: fix_row_def truthy_def)
qed

text \<open>
  C1 as stated fails. Header \<open>a,b,c\<close>, then \<open>x,,\<close> (one populated field) and
  \<open>,y,z\<close> (two): both rows are logged as malformed and their populated counts add up
  to 3, yet no row is written for them, since their raw field counts add up to 6.
\<close>

theorem populated_sum_is_not_the_test:
  "logged (snd (preprocess ''d'' [''f.csv'']
       (disk [(''d/f.csv'', ''a,b,c'' @ [LF] @ ''x,,'' @ [LF] @ '',y,z'' @ [LF])])))
     = [Malformed 2 ''d/f.csv'', Malformed 3 ''d/f.csv'', Fixing ''d/f.csv'']
   \<and> populated [''x'', '''', ''''] + populated ['''', ''y'', ''z''] = length [''a'', ''b'', ''c'']
   \<and> files (snd (preprocess ''d'' [''f.csv'']
       (disk [(''d/f.csv'', ''a,b,c'' @ [LF] @ ''x,,'' @ [LF] @ '',y,z'' @ [LF])])))
       ''d/f.csv'' = Some (''a,b,c'' @ [CR, LF])"
  by code_simp

subsection \<open>Facts about the file system\<close>

lemma run_append: "run (xs @ ys) m = run ys (run xs m)"
  by (induction xs arbitrary: m) simp_all

lemma run_writes:
  "m p = Some old \<Longrightarrow>
   run (map (\<lambda>r. Write p (f r)) out) m = m(p \<mapsto> old @ concat (map f out))"
proof (induction out arbitrary: m old)
  case Nil
  then show ?case by (simp add: fun_upd_idem)
next
  case (Cons r out)
  have "run (map (\<lambda>r. Write p (f r)) out) (m(p \<mapsto> old @ f r))
          = (m(p \<mapsto> old @ f r))(p \<mapsto> (old @ f r) @ concat (map f out))"
    by (rule Cons.IH) simp
  with Cons.prems show ?case by simp
qed

lemma run_rewrite:
  "run (OpenW (fp @ ''_tmp'') # map (\<lambda>r. Write (fp @ ''_tmp'') (writerow r)) out
          @ [Replace (fp @ ''_tmp'') fp]) m
     = (m(fp \<mapsto> writerows out))(fp @ ''_tmp'' := None)"
proof -
  let ?tmp = "fp @ ''_tmp''"
  have "run (map (\<lambda>r. Write ?tmp (writerow r)) out) (m(?tmp \<mapsto> []))
          = m(?tmp \<mapsto> writerows out)"
    using run_writes[of "m(?tmp \<mapsto> [])" ?tmp "[]" writerow out]
    by (simp add: writerows_def)
  then show ?thesis
    by (simp add: run_append fun_upd_twist)
qed

lemma run_partial:
  "run (OpenW (fp @ ''_tmp'') # map (\<lambda>r. Write (fp @ ''_tmp'') (writerow r)) out) m
     = m(fp @ ''_tmp'' \<mapsto> writerows out)"
proof -
  let ?tmp = "fp @ ''_tmp''"
  show ?thesis
    using run_writes[of "m(?tmp \<mapsto> [])" ?tmp "[]" writerow out]
    by (simp add: writerows_def)
qed

lemma scan_and_fix_repairs:
  assumes fl: "m fp = Some content"
    and rows: "csv_reader (text_lines content) = (headers # rows, None)"
    and scan: "scan_rows fp (length headers) 2 [] [] rows = (cm, lg)"
    and runs: "cm \<noteq> []"
  shows "scan_and_fix fp m =
           (OpenW (fp @ ''_tmp'')
              # map (\<lambda>r. Write (fp @ ''_tmp'') (writerow r))
                  (fst (fix_rows fp cm (length headers) 1 (headers # rows)))
              @ [Replace (fp @ ''_tmp'') fp],
            lg @ [Fixing fp] @ snd (fix_rows fp cm (length headers) 1 (headers # rows)),
            None)"
  using assms
  by (simp add: scan_and_fix_def fix_bad_line_def split_beta Let_def del: fix_rows.simps)

lemma scan_and_fix_untouched:
  assumes fl: "m fp = Some content"
    and rows: "csv_reader (text_lines content) = (headers # rows, None)"
    and scan: "scan_rows fp (length headers) 2 [] [] rows = ([], lg)"
  shows "scan_and_fix fp m = ([], lg, None)"
  using assms by (simp add: scan_and_fix_def Let_def)

subsection \<open>The repair loop keeps no mark of consumed rows\<close>

lemma fix_row_at_most_one: "length (fst (fix_row fp cm N k line)) \<le> 1"
  by (simp add: fix_row_def Let_def)

text \<open>
  C2, as the code has it. Nothing marks row \<open>i + 1\<close> as consumed after rows \<open>i\<close> and
  \<open>i + 1\<close> were merged: the loop reaches it and applies the same rule again. For three
  consecutive malformed rows \<open>a\<close>, \<open>b\<close>, \<open>c\<close> whose raw field counts fit pairwise,
  both pairs are merged and the fields of \<open>b\<close> are written twice. What bounds the
  repetition is the shape of a pass: it writes at most one row, and that row is either
  the row read at its index (when the index is not in the dictionary) or the row of the
  dictionary at its index followed by the row at the next index; so the row at an index
  is used by the pass at that index and the pass before it, and by no other.
\<close>

theorem middle_row_merged_twice:
  assumes scan: "scan_rows fp N 2 [] [] (pre @ a # b # c # post) = (cm, lg)"
    and a: "0 < populated a" "populated a < N"
    and b: "0 < populated b" "populated b < N"
    and c: "0 < populated c" "populated c < N"
    and ab: "length a + length b = N"
    and bc: "length b + length c = N"
  shows "fst (fix_rows fp cm N 1 (headers # pre @ a # b # c # post))
           = fst (fix_rows fp cm N 1 (headers # pre)) @ [a @ b, b @ c]
               @ fst (fix_rows fp cm N (length pre + 4) (c # post))
       \<and> (\<forall>k line. length (fst (fix_row fp cm N k line)) \<le> 1)
       \<and> (\<forall>k line r. r \<in> set (fst (fix_row fp cm N k line)) \<longrightarrow>
             (r = line \<and> map_of cm k = None) \<or>
             (\<exists>x y. map_of cm k = Some x \<and> map_of cm (k + 1) = Some y \<and> r = x @ y))"
proof -
  have cm: "cm = fst (scan_rows fp N 2 [] [] (pre @ a # b # c # post))" using scan by simp
  have at_a: "map_of cm (length pre + 2) = Some a"
    unfolding cm using a by (simp add: scan_rows_map_of)
  have "(pre @ a # b # c # post) ! Suc (length pre) = b"
    by (simp add: nth_append)
  then have at_b: "map_of cm (length pre + 3) = Some b"
    unfolding cm using b by (simp add: scan_rows_map_of Suc_diff_le)
  have "(pre @ a # b # c # post) ! Suc (Suc (length pre)) = c"
    by (simp add: nth_append)
  then have at_c: "map_of cm (length pre + 4) = Some c"
    unfolding cm using c by (simp add: scan_rows_map_of Suc_diff_le)
  have ne: "a \<noteq> []" "b \<noteq> []" "c \<noteq> []"
    using a b c by (auto dest: populated_pos_nonempty)
  have s: "length pre + 2 + 1 = length pre + 3" "length pre + 3 + 1 = length pre + 4" by simp_all
  have row_a: "fix_row fp cm N (length pre + 2) a
           = ([a @ b], [Combined (length pre + 2) (length pre + 3) fp])"
    unfolding fix_row_def s using at_a at_b ne ab by (simp add: truthy_def)
  have row_b: "fix_row fp cm N (length pre + 3) b
           = ([b @ c], [Combined (length pre + 3) (length pre + 4) fp])"
    unfolding fix_row_def s using at_b at_c ne bc by (simp add: truthy_def)
  have len: "1 + length (headers # pre) = length pre + 2" by simp
  have s2: "Suc (length pre + 2) = length pre + 3" "Suc (length pre + 3) = length pre + 4"
    by simp_all
  have "fst (fix_rows fp cm N (length pre + 2) (a # b # c # post)) =
          fst (fix_row fp cm N (length pre + 2) a)
            @ fst (fix_row fp cm N (Suc (length pre + 2)) b)
            @ fst (fix_rows fp cm N (Suc (Suc (length pre + 2))) (c # post))"
    by (simp only: fix_rows_Cons fst_conv)
  then have here: "fst (fix_rows fp cm N (length pre + 2) (a # b # c # post)) =
          [a @ b, b @ c] @ fst (fix_rows fp cm N (length pre + 4) (c # post))"
    by (simp only: row_a row_b s2 fst_conv append_Cons append_Nil)
  have "fst (fix_rows fp cm N 1 ((headers # pre) @ a # b # c # post))
         = fst (fix_rows fp cm N 1 (headers # pre)) @ [a @ b, b @ c]
               @ fst (fix_rows fp cm N (length pre + 4) (c # post))"
    unfolding fix_rows_append[of fp cm N 1 "headers # pre"] len
    by (simp only: fst_conv here)
  then have whole: "fst (fix_rows fp cm N 1 (headers # pre @ a # b # c # post))
         = fst (fix_rows fp cm N 1 (headers # pre)) @ [a @ b, b @ c]
               @ fst (fix_rows fp cm N (length pre + 4) (c # post))"
    by simp
  have shape: "(r = line \<and> map_of cm k = None) \<or>
             (\<exists>x y. map_of cm k = Some x \<and> map_of cm (k + 1) = Some y \<and> r = x @ y)"
    if "r \<in> set (fst (fix_row fp cm N k line))" for k line r
    using fix_row_out[OF that] by blast
  from whole fix_row_at_most_one shape show ?thesis by blast
qed

theorem middle_row_merged_twice_witness:
  "scan_rows ''f'' 4 2 [] [] ([] @ [''1'', ''2''] # [''3'', ''4''] # [''5'', ''6''] # [])
     = ([(2, [''1'', ''2'']), (3, [''3'', ''4'']), (4, [''5'', ''6''])],
        [Malformed 2 ''f'', Malformed 3 ''f'', Malformed 4 ''f''])
   \<and> fst (fix_rows ''f'' [(2, [''1'', ''2'']), (3, [''3'', ''4'']), (4, [''5'', ''6''])] 4 1
            [[''a'', ''b'', ''c'', ''d''], [''1'', ''2''], [''3'', ''4''], [''5'', ''6'']])
       = [[''a'', ''b'', ''c'', ''d''], [''1'', ''2'', ''3'', ''4''], [''3'', ''4'', ''5'', ''6'']]"
proof -
  have scan: "scan_rows ''f'' 4 2 [] [] ([] @ [''1'', ''2''] # [''3'', ''4''] # [''5'', ''6''] # [])
     = ([(2, [''1'', ''2'']), (3, [''3'', ''4'']), (4, [''5'', ''6''])],
        [Malformed 2 ''f'', Malformed 3 ''f'', Malformed 4 ''f''])"
    by (simp add: populated_def)
  have a: "0 < populated [''1'', ''2'']" "populated [''1'', ''2''] < 4"
    by (simp_all add: populated_def)
  have b: "0 < populated [''3'', ''4'']" "populated [''3'', ''4''] < 4"
    by (simp_all add: populated_def)
  have c: "0 < populated [''5'', ''6'']" "populated [''5'', ''6''] < 4"
    by (simp_all add: populated_def)
  have ab: "length [''1'', ''2''] + length [''3'', ''4''] = 4" by simp
  have bc: "length [''3'', ''4''] + length [''5'', ''6''] = 4" by simp
  have pre: "fst (fix_rows ''f'' [(2, [''1'', ''2'']), (3, [''3'', ''4'']), (4, [''5'', ''6''])] 4 1
            ([''a'', ''b'', ''c'', ''d''] # [])) = [[''a'', ''b'', ''c'', ''d'']]"
    by (simp add: fix_row_def)
  have post: "fst (fix_rows ''f'' [(2, [''1'', ''2'']), (3, [''3'', ''4'']), (4, [''5'', ''6''])] 4
            (length ([] :: row list) + 4) ([''5'', ''6''] # [])) = []"
    by (simp add: fix_row_def truthy_def)
  from middle_row_merged_twice[OF scan a b c ab bc, of "[''a'', ''b'', ''c'', ''d'']"]
  have "fst (fix_rows ''f'' [(2, [''1'', ''2'']), (3, [''3'', ''4'']), (4, [''5'', ''6''])] 4 1
            ([''a'', ''b'', ''c'', ''d''] # [] @ [''1'', ''2''] # [''3'', ''4''] # [''5'', ''6''] # []))
       = fst (fix_rows ''f'' [(2, [''1'', ''2'']), (3, [''3'', ''4'']), (4, [''5'', ''6''])] 4 1
            ([''a'', ''b'', ''c'', ''d''] # []))
          @ [[''1'', ''2''] @ [''3'', ''4''], [''3'', ''4''] @ [''5'', ''6'']]
          @ fst (fix_rows ''f'' [(2, [''1'', ''2'']), (3, [''3'', ''4'']), (4, [''5'', ''6''])] 4
            (length ([] :: row list) + 4) ([''5'', ''6''] # []))"
    by blast
  then have "fst (fix_rows ''f'' [(2, [''1'', ''2'']), (3, [''3'', ''4'']), (4, [''5'', ''6''])] 4 1
            [[''a'', ''b'', ''c'', ''d''], [''1'', ''2''], [''3'', ''4''], [''5'', ''6'']])
       = [[''a'', ''b'', ''c'', ''d''], [''1'', ''2'', ''3'', ''4''], [''3'', ''4'', ''5'', ''6'']]"
    unfolding pre post by simp
  with scan show ?thesis by blast
qed

text \<open>
  C2 as stated fails. Header \<open>a,b,c,d\<close> and the rows \<open>1,2\<close>, \<open>3,4\<close>, \<open>5,6\<close>: the
  first pair is merged, the second pair is merged too, and the fields of the middle row
  are in the output twice.
\<close>

theorem second_pair_is_merged_too:
  "logged (snd (preprocess ''d'' [''f.csv'']
       (disk [(''d/f.csv'',
               ''a,b,c,d'' @ [LF] @ ''1,2'' @ [LF] @ ''3,4'' @ [LF] @ ''5,6'' @ [LF])])))
     = [Malformed 2 ''d/f.csv'', Malformed 3 ''d/f.csv'', Malformed 4 ''d/f.csv'',
        Fixing ''d/f.csv'', Combined 2 3 ''d/f.csv'', Combined 3 4 ''d/f.csv'']
   \<and> files (snd (preprocess ''d'' [''f.csv'']
       (disk [(''d/f.csv'',
               ''a,b,c,d'' @ [LF] @ ''1,2'' @ [LF] @ ''3,4'' @ [LF] @ ''5,6'' @ [LF])])))
       ''d/f.csv''
     = Some (''a,b,c,d'' @ [CR, LF] @ ''1,2,3,4'' @ [CR, LF] @ ''3,4,5,6'' @ [CR, LF])"
  by code_simp

subsection \<open>Blank rows\<close>

lemma fix_row_cites:
  "map_of cm k = None \<Longrightarrow>
   filter (cites k) (snd (fix_row fp cm N j line))
     = (if j = k \<and> line = [] then [EmptyLine k fp] else [])"
  by (auto simp: fix_row_def truthy_def Let_def)

lemma fix_rows_cites:
  "map_of cm k = None \<Longrightarrow>
   filter (cites k) (snd (fix_rows fp cm N idx rows))
     = (if idx \<le> k \<and> k < idx + length rows \<and> rows ! (k - idx) = []
        then [EmptyLine k fp] else [])"
proof (induction rows arbitrary: idx)
  case Nil
  then show ?case by simp
next
  case (Cons line rest)
  have split: "filter (cites k) (snd (fix_rows fp cm N idx (line # rest)))
      = filter (cites k) (snd (fix_row fp cm N idx line))
          @ filter (cites k) (snd (fix_rows fp cm N (Suc idx) rest))"
    by (simp add: split_beta)
  show ?case
  proof (cases "idx = k")
    case True
    then show ?thesis
      unfolding split by (simp add: Cons.IH[OF Cons.prems] fix_row_cites[OF Cons.prems])
  next
    case False
    show ?thesis
    proof (cases "k < idx")
      case True
      with False show ?thesis
        unfolding split by (simp add: Cons.IH[OF Cons.prems] fix_row_cites[OF Cons.prems])
    next
      case F2: False
      with False have "k - idx = Suc (k - Suc idx)" "Suc idx \<le> k" by arith+
      with False show ?thesis
        unfolding split by (simp add: Cons.IH[OF Cons.prems] fix_row_cites[OF Cons.prems])
    qed
  qed
qed

lemma scan_rows_cites:
  assumes "\<not> (0 < populated (rows ! i))"
  shows "filter (cites (i + 2)) (snd (scan_rows fp len 2 [] [] rows)) = []"
proof -
  have "\<not> cites (i + 2) e" if "e \<in> set (snd (scan_rows fp len 2 [] [] rows))" for e
  proof -
    from scan_rows_log[OF that] obtain j where
      "e = Malformed (2 + j) fp" "0 < populated (rows ! j)" by auto
    with assms show ?thesis by auto
  qed
  then show ?thesis by (simp add: filter_empty_conv)
qed

lemma fix_rows_never_blank: "[] \<notin> set (fst (fix_rows fp cm N idx rows))"
proof
  assume "[] \<in> set (fst (fix_rows fp cm N idx rows))"
  from fix_rows_out[OF this] show False by auto
qed

text \<open>
  C3, as the code has it. The row the repair drops as empty is the row with no field
  at all (a blank line), the test being \<open>len(line) == 0\<close>. When the repair runs on a
  file (some row of it is malformed), no blank row is in the rewritten file, and among
  all the messages logged for the file exactly one names the line of a blank row: the
  notice that the line is empty.
\<close>

theorem blank_row_dropped_and_logged_once:
  assumes fl: "m fp = Some content"
    and rows: "csv_reader (text_lines content) = (headers # rows, None)"
    and scan: "scan_rows fp (length headers) 2 [] [] rows = (cm, lg)"
    and runs: "cm \<noteq> []"
    and i: "i < length rows"
    and blank: "rows ! i = []"
  shows "\<exists>ops out lg'.
           scan_and_fix fp m = (ops, lg', None)
         \<and> run ops m fp = Some (writerows out)
         \<and> [] \<notin> set out
         \<and> filter (cites (i + 2)) lg' = [EmptyLine (i + 2) fp]"
proof -
  let ?N = "length headers"
  let ?out = "fst (fix_rows fp cm ?N 1 (headers # rows))"
  let ?ops = "OpenW (fp @ ''_tmp'') # map (\<lambda>r. Write (fp @ ''_tmp'') (writerow r)) ?out
                @ [Replace (fp @ ''_tmp'') fp]"
  let ?lg = "lg @ [Fixing fp] @ snd (fix_rows fp cm ?N 1 (headers # rows))"
  have step: "scan_and_fix fp m = (?ops, ?lg, None)"
    by (rule scan_and_fix_repairs[of m fp content headers rows cm lg, OF fl rows scan runs])
  have written: "run ?ops m fp = Some (writerows ?out)"
    by (simp only: run_rewrite) simp
  have cm: "cm = fst (scan_rows fp ?N 2 [] [] rows)" and lg: "lg = snd (scan_rows fp ?N 2 [] [] rows)"
    using scan by simp_all
  have pop: "\<not> 0 < populated (rows ! i)" using blank by (simp add: populated_def)
  have none: "map_of cm (i + 2) = None"
    unfolding cm using pop by (simp add: scan_rows_map_of)
  have "filter (cites (i + 2)) lg = []"
    unfolding lg by (rule scan_rows_cites[OF pop])
  moreover have "filter (cites (i + 2)) (snd (fix_rows fp cm ?N 1 (headers # rows)))
      = [EmptyLine (i + 2) fp]"
  proof -
    have "1 \<le> i + 2 \<and> i + 2 < 1 + length (headers # rows)
          \<and> (headers # rows) ! (i + 2 - 1) = []"
      using i blank by simp
    then show ?thesis
      by (simp only: fix_rows_cites[OF none, of fp ?N 1 "headers # rows"]) simp
  qed
  ultimately have "filter (cites (i + 2)) ?lg = [EmptyLine (i + 2) fp]" by simp
  with step written fix_rows_never_blank[of fp cm ?N 1 "headers # rows"]
  show ?thesis by blast
qed

theorem blank_row_dropped_and_logged_once_witness:
  "csv_reader (text_lines (''a,b'' @ [CR, LF] @ ''x,'' @ [CR, LF, CR, LF]))
     = ([''a'', ''b''] # [[''x'', ''''], []], None)
   \<and> scan_rows ''f'' (length [''a'', ''b'']) 2 [] [] [[''x'', ''''], []]
     = ([(2, [''x'', ''''])], [Malformed 2 ''f''])
   \<and> [[''x'', ''''], []] ! 1 = []
   \<and> (\<exists>ops out lg'.
         scan_and_fix ''f'' (map_of [(''f'', ''a,b'' @ [CR, LF] @ ''x,'' @ [CR, LF, CR, LF])])
           = (ops, lg', None)
       \<and> run ops (map_of [(''f'', ''a,b'' @ [CR, LF] @ ''x,'' @ [CR, LF, CR, LF])]) ''f''
           = Some (writerows out)
       \<and> [] \<notin> set out
       \<and> filter (cites (1 + 2)) lg' = [EmptyLine (1 + 2) ''f''])"
proof -
  let ?content = "''a,b'' @ [CR, LF] @ ''x,'' @ [CR, LF, CR, LF]"
  have fl: "map_of [(''f'', ?content)] ''f'' = Some ?content" by simp
  have rows: "csv_reader (text_lines ?content) = ([''a'', ''b''] # [[''x'', ''''], []], None)"
    by code_simp
  have scan: "scan_rows ''f'' (length [''a'', ''b'']) 2 [] [] [[''x'', ''''], []]
     = ([(2, [''x'', ''''])], [Malformed 2 ''f''])"
    by (simp add: populated_def)
  have runs: "[(2::nat, [''x'', ''''])] \<noteq> []" by simp
  have i: "1 < length [[''x'', ''''], [] :: row]" by simp
  have blank: "[[''x'', ''''], []] ! 1 = ([] :: row)" by simp
  from blank_row_dropped_and_logged_once[of "map_of [(''f'', ?content)]" "''f''" ?content
      "[''a'', ''b'']" "[[''x'', ''''], []]" "[(2, [''x'', ''''])]" "[Malformed 2 ''f'']" 1,
      OF fl rows scan runs i blank] rows scan blank
  show ?thesis by blast
qed

text \<open>
  C3 as stated fails. Header \<open>a,b,c\<close>, the malformed row \<open>x,,\<close> and the row \<open>,,\<close>,
  whose three fields are all empty: the repair runs, the row of empty fields is written
  to the output, and no message names its line 3.
\<close>

theorem row_of_empty_fields_is_kept:
  "populated ['''', '''', ''''] = 0
   \<and> logged (snd (preprocess ''d'' [''f.csv'']
       (disk [(''d/f.csv'', ''a,b,c'' @ [LF] @ ''x,,'' @ [LF] @ '',,'' @ [LF])])))
     = [Malformed 2 ''d/f.csv'', Fixing ''d/f.csv'']
   \<and> files (snd (preprocess ''d'' [''f.csv'']
       (disk [(''d/f.csv'', ''a,b,c'' @ [LF] @ ''x,,'' @ [LF] @ '',,'' @ [LF])])))
       ''d/f.csv''
     = Some (''a,b,c'' @ [CR, LF] @ '',,'' @ [CR, LF])"
  by code_simp

subsection \<open>Errors leave \<open>preprocess\<close>\<close>

lemma preprocess_append:
  "preprocess dat (xs @ ys) st =
     (case preprocess dat xs st of
        (None, st') \<Rightarrow> preprocess dat ys st'
      | (Some e, st') \<Rightarrow> (Some e, st'))"
proof (induction xs arbitrary: st)
  case Nil
  then show ?case by simp
next
  case (Cons x xs)
  show ?case
    by (cases "preprocess_file dat x (files st)" rule: prod_cases3)
       (simp add: Cons.IH Let_def split: option.split)
qed

lemma sanitize_ops_error:
  assumes "snd (sanitize_rows content) = Some e"
  shows "sanitize_ops fp content =
           (OpenW (fp @ ''_tmp'')
              # map (\<lambda>r. Write (fp @ ''_tmp'') (writerow r)) (fst (sanitize_rows content)),
            Some e)"
  using assms by (simp add: sanitize_ops_def split_beta Let_def)

lemma sanitize_ops_ok:
  assumes "snd (sanitize_rows content) = None"
  shows "sanitize_ops fp content =
           (OpenW (fp @ ''_tmp'')
              # map (\<lambda>r. Write (fp @ ''_tmp'') (writerow r)) (fst (sanitize_rows content))
              @ [Replace (fp @ ''_tmp'') fp],
            None)"
  using assms by (simp add: sanitize_ops_def split_beta Let_def)

text \<open>
  C6, as the code has it. Nothing in \<open>preprocess\<close> catches an exception. When the
  files before \<open>fin\<close> were processed without error and sanitizing \<open>fin\<close> fails on
  a line that is not UTF-8, \<open>preprocess\<close> ends with that error whatever files remain:
  nothing is logged for \<open>fin\<close>, its content is untouched, and every other path except
  the temporary file of \<open>fin\<close> holds what it held when \<open>fin\<close> was reached, so no
  remaining file is processed.
\<close>

theorem decode_error_ends_preprocess:
  assumes before: "preprocess dat before st = (None, st1)"
    and fl: "files st1 (dat @ ''/'' @ fin) = Some content"
    and bad: "snd (sanitize_rows content) = Some UnicodeDecodeError"
  shows "\<exists>st2. preprocess dat (before @ fin # rest) st = (Some UnicodeDecodeError, st2)
           \<and> logged st2 = logged st1
           \<and> files st2 (dat @ ''/'' @ fin) = Some content
           \<and> (\<forall>p. p \<noteq> dat @ ''/'' @ fin @ ''_tmp'' \<longrightarrow> files st2 p = files st1 p)"
proof -
  let ?fp = "dat @ ''/'' @ fin"
  let ?ops = "OpenW (?fp @ ''_tmp'')
              # map (\<lambda>r. Write (?fp @ ''_tmp'') (writerow r)) (fst (sanitize_rows content))"
  let ?st2 = "\<lparr>files = run ?ops (files st1), logged = logged st1 @ []\<rparr>"
  have one: "preprocess_file dat fin (files st1) = (?ops, [], Some UnicodeDecodeError)"
    using fl by (simp add: preprocess_file_def sanitize_ops_error[OF bad])
  have "preprocess dat (fin # rest) st1 = (Some UnicodeDecodeError, ?st2)"
    by (simp add: one)
  then have whole: "preprocess dat (before @ fin # rest) st = (Some UnicodeDecodeError, ?st2)"
    by (simp add: preprocess_append before)
  have upd: "files ?st2 = (files st1)(?fp @ ''_tmp'' \<mapsto> writerows (fst (sanitize_rows content)))"
    by (simp only: state.simps run_partial)
  have "files ?st2 ?fp = Some content"
    unfolding upd using fl by simp
  moreover have "\<forall>p. p \<noteq> dat @ ''/'' @ fin @ ''_tmp'' \<longrightarrow> files ?st2 p = files st1 p"
    unfolding upd by simp
  moreover have "logged ?st2 = logged st1" by simp
  ultimately show ?thesis using whole by blast
qed

theorem decode_error_ends_preprocess_witness:
  "preprocess ''d'' [] (disk [(''d/a.csv'', [CHR 0xFF]), (''d/b.csv'', ''x'' @ [NUL])])
     = (None, disk [(''d/a.csv'', [CHR 0xFF]), (''d/b.csv'', ''x'' @ [NUL])])
   \<and> snd (sanitize_rows [CHR 0xFF]) = Some UnicodeDecodeError
   \<and> (\<exists>st2. preprocess ''d'' ([] @ ''a.csv'' # [''b.csv''])
                (disk [(''d/a.csv'', [CHR 0xFF]), (''d/b.csv'', ''x'' @ [NUL])])
              = (Some UnicodeDecodeError, st2)
            \<and> logged st2 = []
            \<and> files st2 ''d/a.csv'' = Some [CHR 0xFF]
            \<and> files st2 ''d/b.csv'' = Some (''x'' @ [NUL]))"
proof -
  let ?st = "disk [(''d/a.csv'', [CHR 0xFF]), (''d/b.csv'', ''x'' @ [NUL])]"
  have before: "preprocess ''d'' [] ?st = (None, ?st)" by simp
  have fl: "files ?st (''d'' @ ''/'' @ ''a.csv'') = Some [CHR 0xFF]"
    by (simp add: disk_def)
  have bad: "snd (sanitize_rows [CHR 0xFF]) = Some UnicodeDecodeError"
    by code_simp
  from decode_error_ends_preprocess[OF before fl bad, of "[''b.csv'']"]
  obtain st2 where st2:
    "preprocess ''d'' ([] @ ''a.csv'' # [''b.csv'']) ?st = (Some UnicodeDecodeError, st2)"
    "logged st2 = logged ?st"
    "files st2 (''d'' @ ''/'' @ ''a.csv'') = Some [CHR 0xFF]"
    "\<forall>p. p \<noteq> ''d'' @ ''/'' @ ''a.csv'' @ ''_tmp'' \<longrightarrow> files st2 p = files ?st p"
    by blast
  from st2(4) have "files st2 ''d/b.csv'' = files ?st ''d/b.csv''" by simp
  then have b: "files st2 ''d/b.csv'' = Some (''x'' @ [NUL])" by (simp add: disk_def)
  from st2(2) have l: "logged st2 = []" by (simp add: disk_def)
  from st2(3) have a: "files st2 ''d/a.csv'' = Some [CHR 0xFF]" by simp
  from before bad st2(1) l a b show ?thesis by blast
qed

text \<open>
  C6 as stated fails. Of two files the first is not UTF-8 and the second holds a NUL
  byte: \<open>preprocess\<close> ends with the decode error and the second file still holds its
  NUL byte, although processed by itself it is sanitized.
\<close>

theorem remaining_files_not_processed:
  "fst (preprocess ''d'' [''a.csv'', ''b.csv'']
         (disk [(''d/a.csv'', [CHR 0xFF]), (''d/b.csv'', ''x'' @ [NUL])]))
     = Some UnicodeDecodeError
   \<and> files (snd (preprocess ''d'' [''a.csv'', ''b.csv'']
         (disk [(''d/a.csv'', [CHR 0xFF]), (''d/b.csv'', ''x'' @ [NUL])]))) ''d/b.csv''
     = Some (''x'' @ [NUL])
   \<and> files (snd (preprocess ''d'' [''b.csv'']
         (disk [(''d/a.csv'', [CHR 0xFF]), (''d/b.csv'', ''x'' @ [NUL])]))) ''d/b.csv''
     = Some (''x'' @ [CR, LF])"
  by code_simp

subsection \<open>What an observer of the file system sees\<close>

lemma trace_append:
  "set (trace (xs @ ys) m) = set (trace xs m) \<union> set (trace ys (run xs m))"
proof (induction xs arbitrary: m)
  case Nil
  show ?case by (cases ys) auto
next
  case (Cons x xs)
  then show ?case by auto
qed

lemma trace_writes:
  "m' \<in> set (trace (map (\<lambda>r. Write tmp (f r)) out) m) \<Longrightarrow> p \<noteq> tmp \<Longrightarrow> m' p = m p"
proof (induction out arbitrary: m)
  case Nil
  then show ?case by simp
next
  case (Cons r out)
  from Cons.prems(1) have "m' = m \<or>
      m' \<in> set (trace (map (\<lambda>r. Write tmp (f r)) out) (apply_op (Write tmp (f r)) m))"
    by simp
  then show ?case
  proof
    assume "m' \<in> set (trace (map (\<lambda>r. Write tmp (f r)) out) (apply_op (Write tmp (f r)) m))"
    from Cons.IH[OF this Cons.prems(2)] Cons.prems(2) show ?thesis by simp
  qed simp
qed

text \<open>
  A rewriting step opens the temporary file, writes the rows and, if nothing was
  raised, replaces the file. Until the replacement the file holds its old content; after
  it, the whole new content.
\<close>

lemma trace_rewrite:
  assumes m': "m' \<in> set (trace (OpenW (fp @ ''_tmp'')
                  # map (\<lambda>r. Write (fp @ ''_tmp'') (writerow r)) out @ tail) m)"
    and tail: "tail = [] \<or> tail = [Replace (fp @ ''_tmp'') fp]"
  shows "m' fp = m fp \<or> (tail = [Replace (fp @ ''_tmp'') fp] \<and> m' fp = Some (writerows out))"
proof -
  let ?tmp = "fp @ ''_tmp''"
  let ?w = "map (\<lambda>r. Write ?tmp (writerow r)) out"
  have ne: "fp \<noteq> ?tmp" by simp
  from m' have "m' = m \<or> m' \<in> set (trace (?w @ tail) (m(?tmp \<mapsto> [])))" by simp
  then show ?thesis
  proof
    assume "m' \<in> set (trace (?w @ tail) (m(?tmp \<mapsto> [])))"
    then have "m' \<in> set (trace ?w (m(?tmp \<mapsto> [])))
               \<or> m' \<in> set (trace tail (run ?w (m(?tmp \<mapsto> []))))"
      by (simp add: trace_append)
    then show ?thesis
    proof
      assume "m' \<in> set (trace ?w (m(?tmp \<mapsto> [])))"
      from trace_writes[OF this ne] show ?thesis by simp
    next
      assume in_tail: "m' \<in> set (trace tail (run ?w (m(?tmp \<mapsto> []))))"
      have after: "run ?w (m(?tmp \<mapsto> [])) = m(?tmp \<mapsto> writerows out)"
        using run_partial[of fp out m] by simp
      from tail show ?thesis
      proof
        assume "tail = []"
        with in_tail after show ?thesis by simp
      next
        assume t: "tail = [Replace ?tmp fp]"
        with in_tail after
        have "m' = m(?tmp \<mapsto> writerows out)
              \<or> m' = (m(?tmp \<mapsto> writerows out, fp \<mapsto> writerows out))(?tmp := None)"
          by simp
        with t show ?thesis by auto
      qed
    qed
  qed simp
qed

lemma trace_rewrite_others:
  assumes m': "m' \<in> set (trace (OpenW (fp @ ''_tmp'')
                  # map (\<lambda>r. Write (fp @ ''_tmp'') (writerow r)) out @ tail) m)"
    and tail: "tail = [] \<or> tail = [Replace (fp @ ''_tmp'') fp]"
    and p: "p \<noteq> fp" "p \<noteq> fp @ ''_tmp''"
  shows "m' p = m p"
proof -
  let ?tmp = "fp @ ''_tmp''"
  let ?w = "map (\<lambda>r. Write ?tmp (writerow r)) out"
  from m' have "m' = m \<or> m' \<in> set (trace (?w @ tail) (m(?tmp \<mapsto> [])))" by simp
  then show ?thesis
  proof
    assume "m' \<in> set (trace (?w @ tail) (m(?tmp \<mapsto> [])))"
    then have "m' \<in> set (trace ?w (m(?tmp \<mapsto> [])))
               \<or> m' \<in> set (trace tail (run ?w (m(?tmp \<mapsto> []))))"
      by (simp add: trace_append)
    then show ?thesis
    proof
      assume "m' \<in> set (trace ?w (m(?tmp \<mapsto> [])))"
      from trace_writes[OF this p(2)] p show ?thesis by simp
    next
      assume in_tail: "m' \<in> set (trace tail (run ?w (m(?tmp \<mapsto> []))))"
      have after: "run ?w (m(?tmp \<mapsto> [])) = m(?tmp \<mapsto> writerows out)"
        using run_partial[of fp out m] by simp
      from tail show ?thesis
      proof
        assume "tail = []"
        with in_tail after p show ?thesis by simp
      next
        assume t: "tail = [Replace ?tmp fp]"
        with in_tail after
        have "m' = m(?tmp \<mapsto> writerows out)
              \<or> m' = (m(?tmp \<mapsto> writerows out, fp \<mapsto> writerows out))(?tmp := None)"
          by simp
        with p show ?thesis by auto
      qed
    qed
  qed simp
qed

lemma scan_and_fix_ops:
  assumes "m fp = Some c"
  shows "fst (scan_and_fix fp m) = []
       \<or> fst (scan_and_fix fp m) =
           OpenW (fp @ ''_tmp'')
             # map (\<lambda>r. Write (fp @ ''_tmp'') (writerow r)) (repaired_rows fp c)
             @ [Replace (fp @ ''_tmp'') fp]"
proof (cases "csv_reader (text_lines c)")
  case (Pair rs err)
  show ?thesis
  proof (cases rs)
    case Nil
    with Pair assms show ?thesis by (simp add: scan_and_fix_def)
  next
    case (Cons headers rows)
    obtain cm lg where scan: "scan_rows fp (length headers) 2 [] [] rows = (cm, lg)"
      by (cases "scan_rows fp (length headers) 2 [] [] rows")
    show ?thesis
    proof (cases "err = None \<and> cm \<noteq> []")
      case True
      with Pair Cons have rows: "csv_reader (text_lines c) = (headers # rows, None)" by simp
      from True have runs: "cm \<noteq> []" by simp
      have rep: "repaired_rows fp c = fst (fix_rows fp cm (length headers) 1 (headers # rows))"
        using rows scan by (simp add: repaired_rows_def del: fix_rows.simps)
      show ?thesis
        unfolding scan_and_fix_repairs[of m fp c headers rows cm lg, OF assms rows scan runs] rep
        by simp
    next
      case False
      with Pair Cons assms scan show ?thesis
        by (auto simp: scan_and_fix_def Let_def split: option.split)
    qed
  qed
qed

text \<open>
  C8. While one file is processed, every file-system state an observer can see holds
  at the path of the file either its original content, its whole sanitized content or
  its whole repaired content: the operations write to the temporary file only and the
  file changes by a replacement. If the sanitization raises, the file holds its original
  content in every state. No path other than the file and its temporary file changes.
\<close>

theorem file_changes_by_replacement_only:
  assumes fl: "m (dat @ ''/'' @ fin) = Some content"
    and step: "preprocess_file dat fin m = (ops, lg, err)"
  shows "(\<forall>m' \<in> set (trace ops m).
            (m' (dat @ ''/'' @ fin) = Some content
             \<or> m' (dat @ ''/'' @ fin) = Some (writerows (fst (sanitize_rows content)))
             \<or> m' (dat @ ''/'' @ fin) =
                 Some (writerows (repaired_rows (dat @ ''/'' @ fin)
                                    (writerows (fst (sanitize_rows content))))))
          \<and> (snd (sanitize_rows content) \<noteq> None \<longrightarrow> m' (dat @ ''/'' @ fin) = Some content)
          \<and> (\<forall>p. p \<noteq> dat @ ''/'' @ fin \<and> p \<noteq> (dat @ ''/'' @ fin) @ ''_tmp''
                 \<longrightarrow> m' p = m p))"
proof
  fix m' assume m': "m' \<in> set (trace ops m)"
  let ?fp = "dat @ ''/'' @ fin"
  let ?tmp = "?fp @ ''_tmp''"
  let ?rows1 = "fst (sanitize_rows content)"
  let ?c1 = "writerows ?rows1"
  let ?w1 = "OpenW ?tmp # map (\<lambda>r. Write ?tmp (writerow r)) ?rows1"
  let ?goal = "(m' ?fp = Some content \<or> m' ?fp = Some ?c1
                \<or> m' ?fp = Some (writerows (repaired_rows ?fp ?c1)))
          \<and> (snd (sanitize_rows content) \<noteq> None \<longrightarrow> m' ?fp = Some content)
          \<and> (\<forall>p. p \<noteq> ?fp \<and> p \<noteq> ?tmp \<longrightarrow> m' p = m p)"
  show ?goal
  proof (cases "snd (sanitize_rows content)")
    case (Some e)
    have "preprocess_file dat fin m = (?w1, [], Some e)"
      using fl by (simp add: preprocess_file_def sanitize_ops_error[OF Some] Let_def)
    with step have ops: "ops = ?w1 @ []" by simp
    have t: "([] :: fs_op list) = [] \<or> [] = [Replace ?tmp ?fp]" by simp
    from m' have in1: "m' \<in> set (trace (?w1 @ []) m)" unfolding ops .
    from trace_rewrite[of m' ?fp ?rows1 "[]" m] in1 fl
    have "m' ?fp = Some content" by simp
    moreover have "\<forall>p. p \<noteq> ?fp \<and> p \<noteq> ?tmp \<longrightarrow> m' p = m p"
      using trace_rewrite_others[of m' ?fp ?rows1 "[]" m] in1 by simp
    ultimately show ?thesis by simp
  next
    case None
    let ?ops1 = "?w1 @ [Replace ?tmp ?fp]"
    let ?m1 = "run ?ops1 m"
    have m1: "?m1 = (m(?fp \<mapsto> ?c1))(?tmp := None)"
      using run_rewrite[of ?fp ?rows1 m] by simp
    then have m1fp: "?m1 ?fp = Some ?c1" by simp
    have "preprocess_file dat fin m =
            (?ops1 @ fst (scan_and_fix ?fp ?m1), snd (scan_and_fix ?fp ?m1))"
      using fl by (simp add: preprocess_file_def sanitize_ops_ok[OF None] split_beta Let_def)
    with step have ops: "ops = ?ops1 @ fst (scan_and_fix ?fp ?m1)" by simp
    from m' have "m' \<in> set (trace ?ops1 m) \<or> m' \<in> set (trace (fst (scan_and_fix ?fp ?m1)) ?m1)"
      unfolding ops by (simp only: trace_append Un_iff)
    then show ?thesis
    proof
      assume in1: "m' \<in> set (trace ?ops1 m)"
      from trace_rewrite[of m' ?fp ?rows1 "[Replace ?tmp ?fp]" m] in1 fl
      have "m' ?fp = Some content \<or> m' ?fp = Some ?c1" by simp
      moreover have "\<forall>p. p \<noteq> ?fp \<and> p \<noteq> ?tmp \<longrightarrow> m' p = m p"
        using trace_rewrite_others[of m' ?fp ?rows1 "[Replace ?tmp ?fp]" m] in1 by simp
      ultimately show ?thesis using None by blast
    next
      assume in2: "m' \<in> set (trace (fst (scan_and_fix ?fp ?m1)) ?m1)"
      have others1: "\<forall>p. p \<noteq> ?fp \<and> p \<noteq> ?tmp \<longrightarrow> ?m1 p = m p"
        unfolding m1 by simp
      from scan_and_fix_ops[of ?m1 ?fp ?c1, OF m1fp]
      show ?thesis
      proof
        assume "fst (scan_and_fix ?fp ?m1) = []"
        with in2 have "m' = ?m1" by simp
        with m1fp others1 None show ?thesis by simp
      next
        let ?out = "repaired_rows ?fp ?c1"
        assume "fst (scan_and_fix ?fp ?m1) =
                  OpenW ?tmp # map (\<lambda>r. Write ?tmp (writerow r)) ?out @ [Replace ?tmp ?fp]"
        with in2 have in2': "m' \<in> set (trace (OpenW ?tmp
                # map (\<lambda>r. Write ?tmp (writerow r)) ?out @ [Replace ?tmp ?fp]) ?m1)"
          by simp
        from trace_rewrite[of m' ?fp ?out "[Replace ?tmp ?fp]" ?m1] in2' m1fp
        have "m' ?fp = Some ?c1 \<or> m' ?fp = Some (writerows ?out)" by simp
        moreover have "\<forall>p. p \<noteq> ?fp \<and> p \<noteq> ?tmp \<longrightarrow> m' p = ?m1 p"
          using trace_rewrite_others[of m' ?fp ?out "[Replace ?tmp ?fp]" ?m1] in2' by simp
        ultimately show ?thesis using others1 None by auto
      qed
    qed
  qed
qed

theorem file_changes_by_replacement_only_witness:
  "map_of [(''d/f.csv'', ''a,b'' @ [LF] @ ''x'' @ [LF])] (''d'' @ ''/'' @ ''f.csv'')
     = Some (''a,b'' @ [LF] @ ''x'' @ [LF])
   \<and> list_all
        (\<lambda>m'. m' ''d/f.csv'' = Some (''a,b'' @ [LF] @ ''x'' @ [LF])
             \<or> m' ''d/f.csv'' = Some (''a,b'' @ [CR, LF] @ ''x'' @ [CR, LF])
             \<or> m' ''d/f.csv'' = Some (''a,b'' @ [CR, LF]))
        (trace (fst (preprocess_file ''d'' ''f.csv''
                       (map_of [(''d/f.csv'', ''a,b'' @ [LF] @ ''x'' @ [LF])])))
           (map_of [(''d/f.csv'', ''a,b'' @ [LF] @ ''x'' @ [LF])]))
   \<and> run (fst (preprocess_file ''d'' ''f.csv''
                 (map_of [(''d/f.csv'', ''a,b'' @ [LF] @ ''x'' @ [LF])])))
        (map_of [(''d/f.csv'', ''a,b'' @ [LF] @ ''x'' @ [LF])]) ''d/f.csv''
     = Some (''a,b'' @ [CR, LF])"
proof -
  let ?c = "''a,b'' @ [LF] @ ''x'' @ [LF]"
  let ?m = "map_of [(''d/f.csv'', ?c)]"
  have fl: "?m (''d'' @ ''/'' @ ''f.csv'') = Some ?c" by simp
  obtain ops lg err where step: "preprocess_file ''d'' ''f.csv'' ?m = (ops, lg, err)"
    by (rule prod_cases3)
  have c1: "writerows (fst (sanitize_rows ?c)) = ''a,b'' @ [CR, LF] @ ''x'' @ [CR, LF]"
    by code_simp
  have c2: "writerows (repaired_rows (''d'' @ ''/'' @ ''f.csv'')
              (''a,b'' @ [CR, LF] @ ''x'' @ [CR, LF])) = ''a,b'' @ [CR, LF]"
    by code_simp
  from file_changes_by_replacement_only[of ?m "''d''" "''f.csv''" ?c ops lg err, OF fl step]
  have "\<forall>m' \<in> set (trace ops ?m).
          m' (''d'' @ ''/'' @ ''f.csv'') = Some ?c
          \<or> m' (''d'' @ ''/'' @ ''f.csv'') = Some (writerows (fst (sanitize_rows ?c)))
          \<or> m' (''d'' @ ''/'' @ ''f.csv'') =
               Some (writerows (repaired_rows (''d'' @ ''/'' @ ''f.csv'')
                                  (writerows (fst (sanitize_rows ?c)))))"
    by blast
  then have "\<forall>m' \<in> set (trace ops ?m).
          m' ''d/f.csv'' = Some ?c
          \<or> m' ''d/f.csv'' = Some (''a,b'' @ [CR, LF] @ ''x'' @ [CR, LF])
          \<or> m' ''d/f.csv'' = Some (''a,b'' @ [CR, LF])"
    unfolding c1 c2 by simp
  then have all: "list_all
        (\<lambda>m'. m' ''d/f.csv'' = Some ?c
             \<or> m' ''d/f.csv'' = Some (''a,b'' @ [CR, LF] @ ''x'' @ [CR, LF])
             \<or> m' ''d/f.csv'' = Some (''a,b'' @ [CR, LF]))
        (trace (fst (preprocess_file ''d'' ''f.csv'' ?m)) ?m)"
    by (simp only: list_all_iff step fst_conv)
  have fin: "run (fst (preprocess_file ''d'' ''f.csv'' ?m)) ?m ''d/f.csv''
               = Some (''a,b'' @ [CR, LF])"
    by code_simp
  from fl all fin show ?thesis by blast
qed

subsection \<open>Facts about the reader and the writer\<close>

lemma run_events_line:
  "run_events r (line_events l @ es) =
     (case parse_line r l of
        Inl e \<Rightarrow> ([], Some e)
      | Inr r' \<Rightarrow>
          if rd_state r' = START_RECORD
          then (case run_events parse_reset es of (rows, err) \<Rightarrow> (rd_fields r' # rows, err))
          else run_events r' es)"
proof (induction l arbitrary: r)
  case Nil
  show ?case by (simp add: line_events_def split: sum.split)
next
  case (Cons c l)
  show ?case
  proof (cases "parse_process_char r (Some c)")
    case (Inl e)
    then show ?thesis by (simp add: line_events_def)
  next
    case (Inr r')
    with Cons.IH[of r'] show ?thesis by (simp add: line_events_def)
  qed
qed

lemma read_rows_events: "read_rows r (map Inr ls) = run_events r (events ls)"
proof (induction ls arbitrary: r)
  case Nil
  show ?case by (simp add: events_def)
next
  case (Cons l ls)
  have "events (l # ls) = line_events l @ events ls" by (simp add: events_def)
  then show ?case
    by (simp add: run_events_line Cons.IH split: sum.split)
qed

lemma events_binary_lines:
  "events (binary_lines s) = expand s @ (if s \<noteq> [] \<and> last s \<noteq> LF then [None] else [])"
proof (induction s)
  case Nil
  show ?case by (simp add: events_def)
next
  case (Cons c cs)
  show ?case
  proof (cases "c = LF")
    case True
    with Cons show ?thesis by (auto simp: events_def line_events_def)
  next
    case False
    show ?thesis
    proof (cases "binary_lines cs")
      case Nil
      then have "cs = []" by (cases cs) (auto split: if_splits list.splits)
      with False show ?thesis by (simp add: events_def line_events_def)
    next
      case (Cons l ls)
      then have ne: "cs \<noteq> []" by auto
      from Cons Cons.IH[unfolded Cons] False ne show ?thesis
        by (auto simp: events_def line_events_def)
    qed
  qed
qed

lemma utf8_run_append:
  "utf8_run s (a @ b) = (case utf8_run s a of None \<Rightarrow> None | Some s' \<Rightarrow> utf8_run s' b)"
  by (induction a arbitrary: s) (simp_all split: option.split)

lemma special_ascii: "special c \<Longrightarrow> byte_in c 0x00 0x7F"
  by (auto simp: special_def byte_in_def)

lemma utf8_step_ascii:
  "byte_in c 0x00 0x7F \<Longrightarrow> utf8_step s c = (if s = U_START then Some U_START else None)"
  by (cases s) (auto simp: utf8_step_def byte_in_def cont_def)

lemma utf8_valid_Nil: "utf8_valid []"
  by (simp add: utf8_valid_def)

lemma utf8_valid_append: "utf8_valid a \<Longrightarrow> utf8_valid b \<Longrightarrow> utf8_valid (a @ b)"
  by (simp add: utf8_valid_def utf8_run_append)

lemma utf8_valid_special: "special c \<Longrightarrow> utf8_valid [c]"
  by (simp add: utf8_valid_def utf8_step_ascii special_ascii)

lemma utf8_valid_split:
  assumes "utf8_valid (a @ c # b)" and "special c"
  shows "utf8_valid a \<and> utf8_valid b"
proof (cases "utf8_run U_START a")
  case None
  with assms show ?thesis by (simp add: utf8_valid_def utf8_run_append)
next
  case (Some s)
  with assms show ?thesis
    by (auto simp: utf8_valid_def utf8_run_append utf8_step_ascii special_ascii
             split: if_splits)
qed

text \<open>
  What the reader keeps true of its fields, for a property \<open>P\<close> of strings that holds of
  the empty string and of the special characters, is kept by concatenation, and passes to
  both sides of a special character.
\<close>

lemma parse_process_char_keeps:
  assumes app: "\<And>a b. P a \<Longrightarrow> P b \<Longrightarrow> P (a @ b)"
    and split: "\<And>a c b. P (a @ c # b) \<Longrightarrow> special c \<Longrightarrow> P a \<and> P b"
    and fields: "\<forall>f \<in> set (rd_fields r). P f"
    and field: "P (rd_field r @ c # rest)"
    and step: "parse_process_char r (Some c) = Inr r'"
  shows "(\<forall>f \<in> set (rd_fields r'). P f) \<and> P (rd_field r' @ rest)"
proof (cases "special c")
  case True
  from split[OF field True] have P: "P (rd_field r)" "P rest" by simp_all
  then have both: "P (rd_field r @ rest)" by (rule app)
  from split[of "[]" c rest] have nil: "P ([] @ rest)" using P by simp
  from step fields field P both show ?thesis
    by (cases "rd_state r")
       (auto simp: parse_process_char_def start_field_def is_eol_def parse_save_field_def
          parse_add_char_def split: if_splits)
next
  case False
  then have c: "c \<noteq> COMMA" "c \<noteq> QUOTE" "c \<noteq> CR" "c \<noteq> LF"
    by (auto simp: special_def)
  from step fields field c show ?thesis
    by (cases "rd_state r")
       (auto simp: parse_process_char_def start_field_def is_eol_def parse_save_field_def
          parse_add_char_def split: if_splits)
qed

lemma parse_process_eol_keeps:
  assumes fields: "\<forall>f \<in> set (rd_fields r). P f"
    and field: "P (rd_field r)"
    and nil: "P []"
    and step: "parse_process_char r None = Inr r'"
  shows "(\<forall>f \<in> set (rd_fields r'). P f) \<and> P (rd_field r')"
  using assms
  by (cases "rd_state r")
     (auto simp: parse_process_char_def start_field_def is_eol_def parse_save_field_def
        split: if_splits)

lemma parse_line_keeps:
  assumes app: "\<And>a b. P a \<Longrightarrow> P b \<Longrightarrow> P (a @ b)"
    and split: "\<And>a c b. P (a @ c # b) \<Longrightarrow> special c \<Longrightarrow> P a \<and> P b"
    and nil: "P []"
  shows "(\<forall>f \<in> set (rd_fields r). P f) \<Longrightarrow> P (rd_field r @ l) \<Longrightarrow>
         parse_line r l = Inr r' \<Longrightarrow>
         (\<forall>f \<in> set (rd_fields r'). P f) \<and> P (rd_field r')"
proof (induction l arbitrary: r)
  case Nil
  then show ?case using parse_process_eol_keeps[of r P r'] nil by simp
next
  case (Cons c l)
  from Cons.prems(3) obtain r1 where r1: "parse_process_char r (Some c) = Inr r1"
    and rest: "parse_line r1 l = Inr r'"
    by (auto split: sum.splits)
  from parse_process_char_keeps[where P = P, OF app split Cons.prems(1) Cons.prems(2) r1]
  have "(\<forall>f \<in> set (rd_fields r1). P f) \<and> P (rd_field r1 @ l)" by simp
  with Cons.IH[of r1] rest show ?case by simp
qed

lemma read_rows_keeps:
  assumes app: "\<And>a b. P a \<Longrightarrow> P b \<Longrightarrow> P (a @ b)"
    and split: "\<And>a c b. P (a @ c # b) \<Longrightarrow> special c \<Longrightarrow> P a \<and> P b"
    and nil: "P []"
  shows "(\<forall>f \<in> set (rd_fields r). P f) \<Longrightarrow> P (rd_field r) \<Longrightarrow>
         (\<forall>l. Inr l \<in> set ls \<longrightarrow> P l) \<Longrightarrow>
         \<forall>row \<in> set (fst (read_rows r ls)). \<forall>f \<in> set row. P f"
proof (induction ls arbitrary: r)
  case Nil
  then show ?case by (simp add: parse_save_field_def)
next
  case (Cons x ls)
  show ?case
  proof (cases x)
    case (Inl e)
    then show ?thesis by simp
  next
    case (Inr l)
    with Cons.prems(3) have l: "P l" by simp
    from Cons.prems(3) have ls: "\<forall>l. Inr l \<in> set ls \<longrightarrow> P l" by simp
    show ?thesis
    proof (cases "parse_line r l")
      case (Inl e)
      with Inr show ?thesis by simp
    next
      case r': (Inr r')
      from app[OF Cons.prems(2) l] have "P (rd_field r @ l)" .
      from parse_line_keeps[where P = P, OF app split nil Cons.prems(1) this r']
      have keep: "\<forall>f \<in> set (rd_fields r'). P f" "P (rd_field r')" by simp_all
      show ?thesis
      proof (cases "rd_state r' = START_RECORD")
        case True
        have "\<forall>row \<in> set (fst (read_rows parse_reset ls)). \<forall>f \<in> set row. P f"
          by (rule Cons.IH) (simp_all add: parse_reset_def nil ls)
        with True Inr r' keep show ?thesis by (simp add: split_beta)
      next
        case False
        have "\<forall>row \<in> set (fst (read_rows r' ls)). \<forall>f \<in> set row. P f"
          by (rule Cons.IH[OF keep ls])
        with False Inr r' show ?thesis by simp
      qed
    qed
  qed
qed

lemma sanitize_lines_Inr:
  "Inr l \<in> set (sanitize_lines content) \<Longrightarrow> utf8_valid l \<and> NUL \<notin> set l"
  by (auto simp: sanitize_lines_def decode_line_def strip_nul_def Let_def split: if_splits)

lemma sanitize_rows_utf8:
  "row \<in> set (fst (sanitize_rows content)) \<Longrightarrow> f \<in> set row \<Longrightarrow> utf8_valid f"
proof -
  have "\<forall>row \<in> set (fst (read_rows parse_reset (sanitize_lines content))).
          \<forall>f \<in> set row. utf8_valid f"
    by (rule read_rows_keeps[where P = utf8_valid])
       (auto simp: utf8_valid_append utf8_valid_Nil parse_reset_def
             dest: utf8_valid_split sanitize_lines_Inr)
  then show "row \<in> set (fst (sanitize_rows content)) \<Longrightarrow> f \<in> set row \<Longrightarrow> utf8_valid f"
    by (simp add: sanitize_rows_def csv_reader_def)
qed

lemma sanitize_rows_no_nul:
  "row \<in> set (fst (sanitize_rows content)) \<Longrightarrow> f \<in> set row \<Longrightarrow> NUL \<notin> set f"
proof -
  have "\<forall>row \<in> set (fst (read_rows parse_reset (sanitize_lines content))).
          \<forall>f \<in> set row. NUL \<notin> set f"
    by (rule read_rows_keeps[where P = "\<lambda>s. NUL \<notin> set s"])
       (auto simp: parse_reset_def dest: sanitize_lines_Inr)
  then show "row \<in> set (fst (sanitize_rows content)) \<Longrightarrow> f \<in> set row \<Longrightarrow> NUL \<notin> set f"
    by (simp add: sanitize_rows_def csv_reader_def)
qed

lemma utf8_run_join_append_data: "utf8_run s (join_append_data f) = utf8_run s f"
proof (induction f arbitrary: s)
  case Nil
  show ?case by simp
next
  case (Cons c f)
  have q: "special QUOTE" by (simp add: special_def)
  show ?case
    by (cases "s = U_START")
       (simp_all add: Cons.IH utf8_step_ascii[OF special_ascii[OF q]] split: option.split)
qed

lemma utf8_valid_join_append: "utf8_valid f \<Longrightarrow> utf8_valid (join_append f)"
proof -
  assume f: "utf8_valid f"
  have q: "utf8_valid [QUOTE]" by (rule utf8_valid_special) (simp add: special_def)
  from f have "utf8_valid (join_append_data f)"
    by (simp add: utf8_valid_def utf8_run_join_append_data)
  with q have "utf8_valid ([QUOTE] @ join_append_data f @ [QUOTE])"
    by (intro utf8_valid_append)
  with f show ?thesis by (simp add: join_append_def)
qed

lemma utf8_valid_join_fields:
  "\<forall>f \<in> set row. utf8_valid f \<Longrightarrow> utf8_valid (join_fields row)"
proof (induction row rule: join_fields.induct)
  case 1
  show ?case by (simp add: utf8_valid_Nil)
next
  case (2 f)
  then show ?case by (simp add: utf8_valid_join_append)
next
  case (3 f g fs)
  have c: "utf8_valid [COMMA]" by (rule utf8_valid_special) (simp add: special_def)
  from 3 have "utf8_valid (join_append f)" "utf8_valid (join_fields (g # fs))"
    by (simp_all add: utf8_valid_join_append)
  with c have "utf8_valid (join_append f @ [COMMA] @ join_fields (g # fs))"
    by (intro utf8_valid_append)
  then show ?case by simp
qed

lemma utf8_valid_writerow:
  assumes "\<forall>f \<in> set row. utf8_valid f"
  shows "utf8_valid (writerow row)"
proof -
  have t: "utf8_valid [CR, LF]"
    using utf8_valid_append[of "[CR]" "[LF]"] by (simp add: utf8_valid_special special_def)
  have q: "utf8_valid [QUOTE, QUOTE]"
    using utf8_valid_append[of "[QUOTE]" "[QUOTE]"] by (simp add: utf8_valid_special special_def)
  have "utf8_valid ([QUOTE, QUOTE] @ [CR, LF])" using q t by (rule utf8_valid_append)
  moreover have "utf8_valid (join_fields row @ [CR, LF])"
    using utf8_valid_join_fields[OF assms] t by (rule utf8_valid_append)
  ultimately show ?thesis
    by (simp add: writerow_def Let_def)
qed

lemma utf8_valid_writerows:
  "\<forall>row \<in> set rows. \<forall>f \<in> set row. utf8_valid f \<Longrightarrow> utf8_valid (writerows rows)"
proof (induction rows)
  case Nil
  show ?case by (simp add: writerows_def utf8_valid_Nil)
next
  case (Cons row rows)
  then have "utf8_valid (writerow row)" "utf8_valid (writerows rows)"
    by (simp_all add: utf8_valid_writerow)
  then have "utf8_valid (writerow row @ writerows rows)" by (rule utf8_valid_append)
  then show ?case by (simp add: writerows_def)
qed

lemma set_join_append_data: "set (join_append_data f) = set f"
  by (induction f) auto

lemma set_join_append: "set (join_append f) \<subseteq> set f \<union> {QUOTE}"
  by (auto simp: join_append_def set_join_append_data)

lemma set_join_fields: "set (join_fields row) \<subseteq> \<Union>(set ` set row) \<union> {QUOTE, COMMA}"
proof (induction row rule: join_fields.induct)
  case 1
  show ?case by simp
next
  case (2 f)
  show ?case using set_join_append[of f] by auto
next
  case (3 f g fs)
  then show ?case using set_join_append[of f] by auto
qed

lemma set_writerow:
  "set (writerow row) \<subseteq> \<Union>(set ` set row) \<union> {QUOTE, COMMA, CR, LF}"
  using set_join_fields[of row] by (auto simp: writerow_def Let_def)

lemma set_writerows:
  "set (writerows rows) \<subseteq> (\<Union>row \<in> set rows. \<Union>(set ` set row)) \<union> {QUOTE, COMMA, CR, LF}"
proof (induction rows)
  case Nil
  show ?case by (simp add: writerows_def)
next
  case (Cons row rows)
  have "set (writerows (row # rows)) = set (writerow row) \<union> set (writerows rows)"
    by (simp add: writerows_def)
  with Cons set_writerow[of row] show ?case by auto
qed

lemma concat_binary_lines: "concat (binary_lines s) = s"
  by (induction s) (auto split: list.splits)

lemma set_binary_lines: "l \<in> set (binary_lines s) \<Longrightarrow> set l \<subseteq> set s"
proof -
  assume "l \<in> set (binary_lines s)"
  then have "set l \<subseteq> set (concat (binary_lines s))" by auto
  then show ?thesis by (simp add: concat_binary_lines)
qed

lemma utf8_run_binary_lines:
  "utf8_run st s = Some U_START \<Longrightarrow>
     (case binary_lines s of
        [] \<Rightarrow> st = U_START
      | l # ls \<Rightarrow> utf8_run st l = Some U_START \<and> (\<forall>l' \<in> set ls. utf8_valid l'))"
proof (induction s arbitrary: st)
  case Nil
  then show ?case by simp
next
  case (Cons c cs)
  from Cons.prems obtain st' where st': "utf8_step st c = Some st'"
    and rest: "utf8_run st' cs = Some U_START"
    by (auto split: option.splits)
  note IH = Cons.IH[OF rest]
  show ?case
  proof (cases "c = LF")
    case True
    have "special LF" by (simp add: special_def)
    from utf8_step_ascii[OF special_ascii[OF this], of st] st' True
    have "st = U_START" "st' = U_START" by (auto split: if_splits)
    with IH True st' show ?thesis
      by (auto simp: utf8_valid_def split: list.splits)
  next
    case False
    with IH st' show ?thesis by (auto split: list.splits)
  qed
qed

lemma utf8_valid_binary_lines:
  "utf8_valid s \<Longrightarrow> l \<in> set (binary_lines s) \<Longrightarrow> utf8_valid l"
  using utf8_run_binary_lines[of U_START s]
  by (auto simp: utf8_valid_def split: list.splits)

lemma expand_append: "expand (a @ b) = expand a @ expand b"
  by (induction a) simp_all

lemma expand_plain: "\<forall>c \<in> set f. \<not> special c \<Longrightarrow> expand f = map Some f"
  by (induction f) (auto simp: special_def)

lemma run_events_quoted_data:
  "run_events \<lparr>rd_state = IN_QUOTED_FIELD, rd_fields = fs, rd_field = x\<rparr>
       (expand (join_append_data f) @ es)
     = run_events \<lparr>rd_state = IN_QUOTED_FIELD, rd_fields = fs, rd_field = x @ f\<rparr> es"
proof (induction f arbitrary: x)
  case Nil
  show ?case by simp
next
  case (Cons c f)
  from Cons[of "x @ [c]"] show ?case
    by (auto simp: parse_process_char_def parse_add_char_def)
qed

lemma run_events_plain_data:
  "\<forall>c \<in> set f. \<not> special c \<Longrightarrow>
   run_events \<lparr>rd_state = IN_FIELD, rd_fields = fs, rd_field = x\<rparr> (map Some f @ es)
     = run_events \<lparr>rd_state = IN_FIELD, rd_fields = fs, rd_field = x @ f\<rparr> es"
proof (induction f arbitrary: x)
  case Nil
  show ?case by simp
next
  case (Cons c f)
  from Cons.prems have c: "c \<noteq> COMMA" "c \<noteq> QUOTE" "c \<noteq> CR" "c \<noteq> LF"
    and f: "\<forall>c \<in> set f. \<not> special c"
    by (auto simp: special_def)
  from Cons.IH[OF f, of "x @ [c]"] c show ?case
    by (simp add: parse_process_char_def parse_add_char_def is_eol_def)
qed

text \<open>
  A field as the writer writes it, followed by a comma, read where a field may start
  (\<open>first\<close> tells whether it is the first field of the record): the field is saved
  and the next field may start.
\<close>

lemma run_events_field_comma:
  "run_events \<lparr>rd_state = (if first then START_RECORD else START_FIELD),
               rd_fields = fs, rd_field = []\<rparr>
       (expand (join_append f) @ Some COMMA # es)
     = run_events \<lparr>rd_state = START_FIELD, rd_fields = fs @ [f], rd_field = []\<rparr> es"
proof (cases "list_ex special f")
  case True
  then have ja: "expand (join_append f) = Some QUOTE # expand (join_append_data f) @ [Some QUOTE]"
    by (simp add: join_append_def expand_append)
  show ?thesis
    unfolding ja
    using run_events_quoted_data[of fs "[]" f "Some QUOTE # Some COMMA # es"]
    by (simp add: parse_process_char_def start_field_def is_eol_def parse_save_field_def)
next
  case False
  then have plain: "\<forall>c \<in> set f. \<not> special c" by (simp add: list_ex_iff)
  with False have ja: "expand (join_append f) = map Some f"
    by (simp add: join_append_def expand_plain)
  show ?thesis
  proof (cases f)
    case Nil
    with ja show ?thesis
      by (simp add: parse_process_char_def start_field_def is_eol_def parse_save_field_def)
  next
    case (Cons c cs)
    with plain have c: "c \<noteq> COMMA" "c \<noteq> QUOTE" "c \<noteq> CR" "c \<noteq> LF"
      and cs: "\<forall>c \<in> set cs. \<not> special c"
      by (auto simp: special_def)
    from ja Cons have ja': "expand (join_append (c # cs)) = Some c # map Some cs" by simp
    show ?thesis
      unfolding Cons ja'
      using run_events_plain_data[OF cs, of fs "[c]" "Some COMMA # es"] c
      by (simp add: parse_process_char_def start_field_def is_eol_def parse_save_field_def
            parse_add_char_def)
  qed
qed

text \<open>The same field followed by the end of the record: the record is handed out.\<close>

lemma run_events_field_end:
  assumes nl: "nl = [Some CR, Some LF, None] \<or> nl = [Some LF, None]"
    and ne: "\<not> (first \<and> f = [])"
  shows "run_events \<lparr>rd_state = (if first then START_RECORD else START_FIELD),
                     rd_fields = fs, rd_field = []\<rparr>
           (expand (join_append f) @ nl @ es)
         = (case run_events parse_reset es of (rows, err) \<Rightarrow> ((fs @ [f]) # rows, err))"
proof (cases "list_ex special f")
  case True
  then have ja: "expand (join_append f) = Some QUOTE # expand (join_append_data f) @ [Some QUOTE]"
    by (simp add: join_append_def expand_append)
  show ?thesis
    unfolding ja
    using run_events_quoted_data[of fs "[]" f "Some QUOTE # nl @ es"] nl
    by (auto simp: parse_process_char_def start_field_def is_eol_def parse_save_field_def
          after_eol_def)
next
  case False
  then have plain: "\<forall>c \<in> set f. \<not> special c" by (simp add: list_ex_iff)
  with False have ja: "expand (join_append f) = map Some f"
    by (simp add: join_append_def expand_plain)
  show ?thesis
  proof (cases f)
    case Nil
    with ne have "\<not> first" by simp
    with ja Nil nl show ?thesis
      by (auto simp: parse_process_char_def start_field_def is_eol_def parse_save_field_def
            after_eol_def)
  next
    case (Cons c cs)
    with plain have c: "c \<noteq> COMMA" "c \<noteq> QUOTE" "c \<noteq> CR" "c \<noteq> LF"
      and cs: "\<forall>c \<in> set cs. \<not> special c"
      by (auto simp: special_def)
    from ja Cons have ja': "expand (join_append (c # cs)) = Some c # map Some cs" by simp
    show ?thesis
      unfolding Cons ja'
      using run_events_plain_data[OF cs, of fs "[c]" "nl @ es"] c nl
      by (auto simp: parse_process_char_def start_field_def is_eol_def parse_save_field_def
            parse_add_char_def after_eol_def)
  qed
qed

lemma run_events_join_fields:
  assumes nl: "nl = [Some CR, Some LF, None] \<or> nl = [Some LF, None]"
  shows "row \<noteq> [] \<Longrightarrow>
         run_events \<lparr>rd_state = START_FIELD, rd_fields = fs, rd_field = []\<rparr>
           (expand (join_fields row) @ nl @ es)
         = (case run_events parse_reset es of (rows, err) \<Rightarrow> ((fs @ row) # rows, err))"
proof (induction row arbitrary: fs rule: join_fields.induct)
  case 1
  then show ?case by simp
next
  case (2 f)
  from run_events_field_end[OF nl, of False f fs es] show ?case by simp
next
  case (3 f g gs)
  have "run_events \<lparr>rd_state = START_FIELD, rd_fields = fs, rd_field = []\<rparr>
           (expand (join_fields (f # g # gs)) @ nl @ es)
        = run_events \<lparr>rd_state = START_FIELD, rd_fields = fs @ [f], rd_field = []\<rparr>
           (expand (join_fields (g # gs)) @ nl @ es)"
    using run_events_field_comma[of False fs f "expand (join_fields (g # gs)) @ nl @ es"]
    by (simp add: expand_append)
  also have "\<dots> = (case run_events parse_reset es of
                      (rows, err) \<Rightarrow> (((fs @ [f]) @ g # gs) # rows, err))"
    by (rule "3.IH") simp
  finally show ?case by simp
qed

lemma writerow_write_with: "writerow row = write_with [CR, LF] row"
  by (simp add: writerow_def write_with_def)

lemma join_append_Nil: "join_append f = [] \<longleftrightarrow> f = []"
  by (auto simp: join_append_def)

lemma join_fields_Nil: "join_fields row = [] \<longleftrightarrow> row = [] \<or> row = [[]]"
  by (induction row rule: join_fields.induct) (auto simp: join_append_Nil)

lemma run_events_write_with:
  assumes t: "t = [CR, LF] \<or> t = [LF]"
  shows "run_events parse_reset (expand (write_with t row) @ es)
         = (case run_events parse_reset es of (rows, err) \<Rightarrow> (row # rows, err))"
proof -
  from t have nl: "expand t = [Some CR, Some LF, None] \<or> expand t = [Some LF, None]"
    by auto
  have reset: "parse_reset = \<lparr>rd_state = (if True then START_RECORD else START_FIELD),
                              rd_fields = [], rd_field = []\<rparr>"
    by (simp add: parse_reset_def)
  show ?thesis
  proof (cases row rule: join_fields.cases)
    case 1
    with nl show ?thesis
      by (auto simp: write_with_def expand_append parse_reset_def parse_process_char_def)
  next
    case (2 f)
    show ?thesis
    proof (cases "f = []")
      case True
      with 2 nl show ?thesis
        by (auto simp: write_with_def join_append_def expand_append parse_reset_def
              parse_process_char_def start_field_def is_eol_def parse_save_field_def
              after_eol_def)
    next
      case False
      then have "\<not> (True \<and> f = [])" by simp
      from run_events_field_end[OF nl this, of "[]" es] 2 False show ?thesis
        by (simp add: write_with_def join_append_Nil expand_append reset)
    qed
  next
    case (3 f g gs)
    have ne: "join_fields (f # g # gs) \<noteq> []" by simp
    have "run_events parse_reset (expand (join_fields (f # g # gs)) @ expand t @ es)
          = run_events \<lparr>rd_state = START_FIELD, rd_fields = [] @ [f], rd_field = []\<rparr>
              (expand (join_fields (g # gs)) @ expand t @ es)"
      using run_events_field_comma[of True "[]" f
              "expand (join_fields (g # gs)) @ expand t @ es"]
      by (simp add: expand_append reset)
    also have "\<dots> = (case run_events parse_reset es of
                        (rows, err) \<Rightarrow> ((([] @ [f]) @ g # gs) # rows, err))"
      by (rule run_events_join_fields[OF nl]) simp
    finally show ?thesis using 3 ne
      by (simp add: write_with_def expand_append del: join_fields.simps)
  qed
qed

lemma run_events_written:
  assumes t: "t = [CR, LF] \<or> t = [LF]"
  shows "run_events parse_reset (expand (concat (map (write_with t) rows))) = (rows, None)"
proof (induction rows)
  case Nil
  show ?case by (simp add: parse_reset_def)
next
  case (Cons row rows)
  from run_events_write_with[OF t, of row "expand (concat (map (write_with t) rows))"] Cons
  show ?case by (simp add: expand_append)
qed

lemma writerows_write_with: "writerows rows = concat (map (write_with [CR, LF]) rows)"
  by (simp add: writerows_def writerow_write_with[abs_def])

lemma last_writerows: "writerows rows = [] \<or> last (writerows rows) = LF"
proof (induction rows)
  case Nil
  show ?case by (simp add: writerows_def)
next
  case (Cons row rows)
  have w: "writerows (row # rows) = writerow row @ writerows rows"
    by (simp add: writerows_def)
  have l: "last (writerow row) = LF" "writerow row \<noteq> []"
    by (simp_all add: writerow_def Let_def)
  from Cons show ?case
  proof
    assume "writerows rows = []"
    with w l show ?thesis by simp
  next
    assume "last (writerows rows) = LF"
    with w l show ?thesis by (cases "writerows rows = []") simp_all
  qed
qed

text \<open>
  Reading back, in binary mode, what the writer wrote gives the records that were
  written, when their fields are UTF-8 and hold no NUL byte.
\<close>

lemma sanitize_rows_written:
  assumes ok: "\<forall>row \<in> set rows. \<forall>f \<in> set row. utf8_valid f \<and> NUL \<notin> set f"
  shows "sanitize_rows (writerows rows) = (rows, None)"
proof -
  let ?W = "writerows rows"
  have nonul: "NUL \<notin> set ?W"
    using set_writerows[of rows] ok by auto
  have valid: "utf8_valid ?W"
    by (rule utf8_valid_writerows) (simp add: ok)
  have "decode_line l = Inr l" if "l \<in> set (binary_lines ?W)" for l
  proof -
    from set_binary_lines[OF that] nonul have "NUL \<notin> set l" by auto
    then have "strip_nul l = l" by (auto simp: strip_nul_def filter_id_conv)
    with utf8_valid_binary_lines[OF valid that] show ?thesis
      by (simp add: decode_line_def)
  qed
  then have lines: "sanitize_lines ?W = map Inr (binary_lines ?W)"
    by (simp add: sanitize_lines_def)
  have ev: "events (binary_lines ?W) = expand ?W"
    using last_writerows[of rows] by (auto simp: events_binary_lines)
  have "run_events parse_reset (expand ?W) = (rows, None)"
    unfolding writerows_write_with by (rule run_events_written) simp
  then show ?thesis
    by (simp add: sanitize_rows_def csv_reader_def lines read_rows_events ev)
qed

lemma sanitize_rows_fields:
  assumes "sanitize_rows content = (rows, err)"
  shows "\<forall>row \<in> set rows. \<forall>f \<in> set row. utf8_valid f \<and> NUL \<notin> set f"
  using sanitize_rows_utf8[of _ content] sanitize_rows_no_nul[of _ content] assms
  by auto

lemma sanitize_rows_bytes:
  "row \<in> set (fst (sanitize_rows content)) \<Longrightarrow> f \<in> set row \<Longrightarrow> set f \<subseteq> set content"
proof -
  have lines: "set l \<subseteq> set content" if "Inr l \<in> set (sanitize_lines content)" for l
  proof -
    from that obtain b where "b \<in> set (binary_lines content)" "l = strip_nul b"
      by (auto simp: sanitize_lines_def decode_line_def Let_def split: if_splits)
    with set_binary_lines[of b content] show ?thesis by (auto simp: strip_nul_def)
  qed
  have "\<forall>row \<in> set (fst (read_rows parse_reset (sanitize_lines content))).
          \<forall>f \<in> set row. set f \<subseteq> set content"
    by (rule read_rows_keeps[where P = "\<lambda>s. set s \<subseteq> set content"])
       (auto simp: parse_reset_def dest: lines)
  then show "row \<in> set (fst (sanitize_rows content)) \<Longrightarrow> f \<in> set row
               \<Longrightarrow> set f \<subseteq> set content"
    by (simp add: sanitize_rows_def csv_reader_def)
qed

subsection \<open>Claims about the sanitization step\<close>

text \<open>
  C4, as the code has it. The step parses the file as CSV and writes the records back,
  so a file free of NUL bytes is rewritten in the form of the writer. What is idempotent
  is the step on its own result: when sanitizing a file succeeds, sanitizing the
  resulting file succeeds too and leaves the file system as it is, the file byte for
  byte.
\<close>

theorem sanitizing_twice_changes_nothing:
  assumes fl: "m fp = Some content"
    and first: "sanitize_ops fp content = (ops, None)"
  shows "\<exists>out ops'. run ops m fp = Some out
           \<and> sanitize_ops fp out = (ops', None)
           \<and> run ops' (run ops m) = run ops m"
proof -
  let ?rows = "fst (sanitize_rows content)"
  let ?tmp = "fp @ ''_tmp''"
  from first have err: "snd (sanitize_rows content) = None"
    by (simp add: sanitize_ops_def Let_def split_beta)
  then have rows: "sanitize_rows content = (?rows, None)"
    by (simp add: prod_eq_iff)
  from first sanitize_ops_ok[OF err, of fp]
  have ops: "ops = OpenW ?tmp # map (\<lambda>r. Write ?tmp (writerow r)) ?rows @ [Replace ?tmp fp]"
    by simp
  have m1: "run ops m = (m(fp \<mapsto> writerows ?rows))(?tmp := None)"
    unfolding ops by (rule run_rewrite)
  have again: "sanitize_rows (writerows ?rows) = (?rows, None)"
    by (rule sanitize_rows_written) (rule sanitize_rows_fields[OF rows])
  then have "snd (sanitize_rows (writerows ?rows)) = None" by simp
  from sanitize_ops_ok[OF this, of fp] again
  have second: "sanitize_ops fp (writerows ?rows) = (ops, None)"
    by (simp add: ops)
  have "run ops (run ops m) = (run ops m)(fp \<mapsto> writerows ?rows, ?tmp := None)"
    using run_rewrite[of fp ?rows "run ops m"] by (simp add: ops)
  also have "\<dots> = run ops m"
    unfolding m1 by (simp add: fun_upd_twist)
  finally have same: "run ops (run ops m) = run ops m" .
  have "run ops m fp = Some (writerows ?rows)" unfolding m1 by simp
  with second same show ?thesis by blast
qed

theorem sanitizing_twice_changes_nothing_witness:
  "sanitize_ops ''f'' (''a,b'' @ [NUL, LF])
     = ([OpenW ''f_tmp'', Write ''f_tmp'' (''a,b'' @ [CR, LF]), Replace ''f_tmp'' ''f''], None)
   \<and> (\<exists>out ops'.
         run [OpenW ''f_tmp'', Write ''f_tmp'' (''a,b'' @ [CR, LF]), Replace ''f_tmp'' ''f'']
           (map_of [(''f'', ''a,b'' @ [NUL, LF])]) ''f'' = Some out
       \<and> sanitize_ops ''f'' out = (ops', None)
       \<and> run ops'
           (run [OpenW ''f_tmp'', Write ''f_tmp'' (''a,b'' @ [CR, LF]), Replace ''f_tmp'' ''f'']
              (map_of [(''f'', ''a,b'' @ [NUL, LF])]))
         = run [OpenW ''f_tmp'', Write ''f_tmp'' (''a,b'' @ [CR, LF]), Replace ''f_tmp'' ''f'']
             (map_of [(''f'', ''a,b'' @ [NUL, LF])]))"
proof -
  let ?m = "map_of [(''f'', ''a,b'' @ [NUL, LF])]"
  have fl: "?m ''f'' = Some (''a,b'' @ [NUL, LF])" by simp
  have first: "sanitize_ops ''f'' (''a,b'' @ [NUL, LF])
     = ([OpenW ''f_tmp'', Write ''f_tmp'' (''a,b'' @ [CR, LF]), Replace ''f_tmp'' ''f''], None)"
    by code_simp
  from sanitizing_twice_changes_nothing[of ?m "''f''" "''a,b'' @ [NUL, LF]", OF fl first] first
  show ?thesis by blast
qed

text \<open>
  C4 as stated fails. The file \<open>a,b\<close> with the line ending LF holds no NUL byte, and
  the step rewrites it with the line ending CR LF.
\<close>

theorem clean_file_is_rewritten:
  "NUL \<notin> set (''a,b'' @ [LF])
   \<and> run (fst (sanitize_ops ''f'' (''a,b'' @ [LF]))) (map_of [(''f'', ''a,b'' @ [LF])]) ''f''
       = Some (''a,b'' @ [CR, LF])"
  by code_simp

text \<open>
  C5, as the code has it. After a successful sanitization the file holds no NUL byte.
  It is not the input with its NUL bytes taken out: it is what the CSV writer writes for
  the records the CSV reader finds in the NUL-stripped lines. Every byte of it is a
  byte of the input or one of the characters the writer adds (double quote, comma, CR,
  LF), and read again it gives the same records, fields in the same order.
\<close>

theorem sanitized_file_has_no_nul_and_the_same_records:
  assumes fl: "m fp = Some content"
    and ok: "sanitize_ops fp content = (ops, None)"
  shows "\<exists>out. run ops m fp = Some out
           \<and> out = writerows (fst (sanitize_rows content))
           \<and> NUL \<notin> set out
           \<and> set out \<subseteq> set content \<union> {QUOTE, COMMA, CR, LF}
           \<and> sanitize_rows out = sanitize_rows content"
proof -
  let ?rows = "fst (sanitize_rows content)"
  let ?tmp = "fp @ ''_tmp''"
  from ok have err: "snd (sanitize_rows content) = None"
    by (simp add: sanitize_ops_def Let_def split_beta)
  then have rows: "sanitize_rows content = (?rows, None)"
    by (simp add: prod_eq_iff)
  from ok sanitize_ops_ok[OF err, of fp]
  have ops: "ops = OpenW ?tmp # map (\<lambda>r. Write ?tmp (writerow r)) ?rows @ [Replace ?tmp fp]"
    by simp
  have out: "run ops m fp = Some (writerows ?rows)"
    unfolding ops by (simp only: run_rewrite) simp
  have fields: "\<forall>row \<in> set ?rows. \<forall>f \<in> set row. utf8_valid f \<and> NUL \<notin> set f"
    by (rule sanitize_rows_fields[OF rows])
  have nonul: "NUL \<notin> set (writerows ?rows)"
    using set_writerows[of ?rows] fields by auto
  have bytes: "set (writerows ?rows) \<subseteq> set content \<union> {QUOTE, COMMA, CR, LF}"
    using set_writerows[of ?rows] sanitize_rows_bytes[of _ content] by blast
  have again: "sanitize_rows (writerows ?rows) = sanitize_rows content"
    using sanitize_rows_written[OF fields] rows by simp
  from out nonul bytes again show ?thesis by blast
qed

theorem sanitized_file_has_no_nul_and_the_same_records_witness:
  "sanitize_ops ''f'' ([QUOTE] @ ''a'' @ [QUOTE, NUL] @ '',b'' @ [LF])
     = ([OpenW ''f_tmp'', Write ''f_tmp'' (''a,b'' @ [CR, LF]), Replace ''f_tmp'' ''f''], None)
   \<and> (\<exists>out.
         run [OpenW ''f_tmp'', Write ''f_tmp'' (''a,b'' @ [CR, LF]), Replace ''f_tmp'' ''f'']
           (map_of [(''f'', [QUOTE] @ ''a'' @ [QUOTE, NUL] @ '',b'' @ [LF])]) ''f'' = Some out
       \<and> out = writerows (fst (sanitize_rows ([QUOTE] @ ''a'' @ [QUOTE, NUL] @ '',b'' @ [LF])))
       \<and> NUL \<notin> set out
       \<and> set out \<subseteq> set ([QUOTE] @ ''a'' @ [QUOTE, NUL] @ '',b'' @ [LF])
                     \<union> {QUOTE, COMMA, CR, LF}
       \<and> sanitize_rows out = sanitize_rows ([QUOTE] @ ''a'' @ [QUOTE, NUL] @ '',b'' @ [LF]))"
proof -
  let ?c = "[QUOTE] @ ''a'' @ [QUOTE, NUL] @ '',b'' @ [LF]"
  let ?m = "map_of [(''f'', ?c)]"
  have fl: "?m ''f'' = Some ?c" by simp
  have ok: "sanitize_ops ''f'' ?c
     = ([OpenW ''f_tmp'', Write ''f_tmp'' (''a,b'' @ [CR, LF]), Replace ''f_tmp'' ''f''], None)"
    by code_simp
  from sanitized_file_has_no_nul_and_the_same_records[of ?m "''f''" ?c, OF fl ok] ok
  show ?thesis by blast
qed

text \<open>
  C5 as stated fails. The line \<open>"a"\<close>, a NUL byte, \<open>,b\<close>: taking the NUL byte out
  leaves the quoted \<open>"a",b\<close> with the line ending LF, while the sanitized file is
  \<open>a,b\<close> without the quotes and with the line ending CR LF.
\<close>

theorem sanitization_is_not_a_subtraction:
  "strip_nul ([QUOTE] @ ''a'' @ [QUOTE, NUL] @ '',b'' @ [LF])
     = [QUOTE] @ ''a'' @ [QUOTE] @ '',b'' @ [LF]
   \<and> run (fst (sanitize_ops ''f'' ([QUOTE] @ ''a'' @ [QUOTE, NUL] @ '',b'' @ [LF])))
        (map_of [(''f'', [QUOTE] @ ''a'' @ [QUOTE, NUL] @ '',b'' @ [LF])]) ''f''
       = Some (''a,b'' @ [CR, LF])
   \<and> ''a,b'' @ [CR, LF] \<noteq> [QUOTE] @ ''a'' @ [QUOTE] @ '',b'' @ [LF]"
  by code_simp

subsection \<open>Reading the written file in text mode\<close>

lemma un_Cons_other: "c \<noteq> CR \<Longrightarrow> universal_newlines (c # x) = c # universal_newlines x"
  by (cases x) simp_all

lemma un_CR_other:
  "x = [] \<or> hd x \<noteq> LF \<Longrightarrow> universal_newlines (CR # x) = LF # universal_newlines x"
  by (cases x) auto

lemma un_append:
  "b = [] \<or> hd b \<noteq> LF \<Longrightarrow>
   universal_newlines (a @ b) = universal_newlines a @ universal_newlines b"
proof (induction a rule: universal_newlines.induct)
  case 1
  show ?case by simp
next
  case (2 c)
  then show ?case by (cases "c = CR") (simp_all add: un_Cons_other un_CR_other)
next
  case (3 c d cs)
  then show ?case by (cases "c = CR"; cases "d = LF") simp_all
qed

lemma un_plain: "CR \<notin> set s \<Longrightarrow> universal_newlines s = s"
proof (induction s)
  case Nil
  show ?case by simp
next
  case (Cons a s)
  then have "a \<noteq> CR" "universal_newlines s = s" by auto
  then show ?case by (simp add: un_Cons_other)
qed

lemma un_Nil: "universal_newlines s = [] \<longleftrightarrow> s = []"
  by (cases s rule: universal_newlines.cases) auto

lemma special_un: "list_ex special (universal_newlines f) = list_ex special f"
  by (induction f rule: universal_newlines.induct) (auto simp: special_def)

lemma un_join_append_data:
  "universal_newlines (join_append_data f) = join_append_data (universal_newlines f)"
proof (induction f rule: universal_newlines.induct)
  case 1
  show ?case by simp
next
  case (2 c)
  show ?case by (cases "c = CR") simp_all
next
  case (3 c d cs)
  show ?case
  proof (cases "c = CR")
    case True
    show ?thesis
    proof (cases "d = LF")
      case True
      with \<open>c = CR\<close> 3 show ?thesis by simp
    next
      case False
      then have "hd (join_append_data (d # cs)) \<noteq> LF" by simp
      then have "universal_newlines (CR # join_append_data (d # cs))
                   = LF # universal_newlines (join_append_data (d # cs))"
        by (intro un_CR_other) simp
      with \<open>c = CR\<close> False 3 show ?thesis by simp
    qed
  next
    case False
    with 3 show ?thesis by (simp add: un_Cons_other)
  qed
qed

lemma un_join_append:
  assumes b: "b = [] \<or> hd b \<noteq> LF"
  shows "universal_newlines (join_append f @ b)
           = join_append (universal_newlines f) @ universal_newlines b"
proof (cases "list_ex special f")
  case True
  have q: "[QUOTE] @ b = [] \<or> hd ([QUOTE] @ b) \<noteq> LF" by simp
  have "universal_newlines (join_append f @ b)
          = QUOTE # universal_newlines (join_append_data f @ ([QUOTE] @ b))"
    using True by (simp add: join_append_def un_Cons_other)
  also have "\<dots> = QUOTE # universal_newlines (join_append_data f)
                       @ universal_newlines ([QUOTE] @ b)"
    by (simp only: un_append[OF q])
  also have "\<dots> = QUOTE # join_append_data (universal_newlines f) @ QUOTE # universal_newlines b"
    by (simp add: un_join_append_data un_Cons_other)
  finally show ?thesis using True by (simp add: join_append_def special_un)
next
  case False
  then have "CR \<notin> set f" by (auto simp: list_ex_iff special_def)
  then have "universal_newlines f = f" by (rule un_plain)
  with False un_append[OF b, of f] show ?thesis
    by (simp add: join_append_def)
qed

lemma un_join_fields:
  "b = [] \<or> hd b \<noteq> LF \<Longrightarrow>
   universal_newlines (join_fields row @ b)
     = join_fields (map universal_newlines row) @ universal_newlines b"
proof (induction row rule: join_fields.induct)
  case 1
  show ?case by simp
next
  case (2 f)
  then show ?case by (simp add: un_join_append)
next
  case (3 f g fs)
  have c: "COMMA # join_fields (g # fs) @ b = [] \<or> hd (COMMA # join_fields (g # fs) @ b) \<noteq> LF"
    by simp
  from un_join_append[OF c, of f] 3 show ?case
    by (simp add: un_Cons_other)
qed

lemma un_write_with:
  "universal_newlines (write_with [CR, LF] row @ rest)
     = write_with [LF] (map universal_newlines row) @ universal_newlines rest"
proof -
  have t: "[CR, LF] @ rest = [] \<or> hd ([CR, LF] @ rest) \<noteq> LF" by simp
  have nil: "join_fields (map universal_newlines row) = [] \<longleftrightarrow> join_fields row = []"
    by (auto simp: join_fields_Nil un_Nil)
  show ?thesis
  proof (cases "row \<noteq> [] \<and> join_fields row = []")
    case True
    with nil show ?thesis
      by (simp add: write_with_def un_Cons_other)
  next
    case False
    with nil have w: "write_with [CR, LF] row = join_fields row @ [CR, LF]"
      "write_with [LF] (map universal_newlines row)
         = join_fields (map universal_newlines row) @ [LF]"
      by (auto simp: write_with_def)
    from un_join_fields[OF t, of row] show ?thesis
      unfolding w by simp
  qed
qed

lemma un_writerows:
  "universal_newlines (writerows rows)
     = concat (map (write_with [LF]) (map (map universal_newlines) rows))"
proof (induction rows)
  case Nil
  show ?case by (simp add: writerows_def)
next
  case (Cons row rows)
  have "writerows (row # rows) = write_with [CR, LF] row @ writerows rows"
    by (simp add: writerows_def writerow_write_with)
  with Cons un_write_with[of row "writerows rows"] show ?case by simp
qed

lemma last_written:
  assumes "t = [CR, LF] \<or> t = [LF]"
  shows "concat (map (write_with t) rows) = [] \<or> last (concat (map (write_with t) rows)) = LF"
proof (induction rows)
  case Nil
  show ?case by simp
next
  case (Cons row rows)
  have l: "last (write_with t row) = LF" "write_with t row \<noteq> []"
    using assms by (auto simp: write_with_def Let_def)
  from Cons show ?case
  proof
    assume "concat (map (write_with t) rows) = []"
    with l show ?thesis by simp
  next
    assume "last (concat (map (write_with t) rows)) = LF"
    with l show ?thesis by (cases "concat (map (write_with t) rows) = []") simp_all
  qed
qed

text \<open>
  Reading back, in text mode, what the writer wrote gives the records that were
  written, with the line breaks inside their fields read as LF.
\<close>

lemma text_rows_written:
  assumes ok: "\<forall>row \<in> set rows. \<forall>f \<in> set row. utf8_valid f"
  shows "csv_reader (text_lines (writerows rows))
           = (map (map universal_newlines) rows, None)"
proof -
  let ?T = "concat (map (write_with [LF]) (map (map universal_newlines) rows))"
  have valid: "utf8_valid (writerows rows)"
    by (rule utf8_valid_writerows) (rule ok)
  then have lines: "text_lines (writerows rows) = map Inr (binary_lines ?T)"
    by (simp add: text_lines_def un_writerows)
  have ev: "events (binary_lines ?T) = expand ?T"
    using last_written[of "[LF]" "map (map universal_newlines) rows"]
    by (auto simp: events_binary_lines)
  have "run_events parse_reset (expand ?T) = (map (map universal_newlines) rows, None)"
    by (rule run_events_written) simp
  then show ?thesis
    by (simp only: csv_reader_def lines read_rows_events ev)
qed

subsection \<open>A file that holds a header and nothing else\<close>

text \<open>
  C7, as the code has it. When the file parses to one record, the header, and to no
  other, preprocessing succeeds and logs nothing; the file it leaves is that record as
  the CSV writer writes it (minimal quoting, line ending CR LF). That is the original
  file exactly when the original already had that form.
\<close>

theorem header_only_file_is_rewritten_without_log:
  assumes fl: "m (dat @ ''/'' @ fin) = Some content"
    and hdr: "sanitize_rows content = ([headers], None)"
  shows "\<exists>ops. preprocess_file dat fin m = (ops, [], None)
           \<and> run ops m (dat @ ''/'' @ fin) = Some (writerow headers)
           \<and> (run ops m (dat @ ''/'' @ fin) = Some content) = (content = writerow headers)"
proof -
  let ?fp = "dat @ ''/'' @ fin"
  let ?tmp = "?fp @ ''_tmp''"
  let ?ops = "OpenW ?tmp # map (\<lambda>r. Write ?tmp (writerow r)) [headers] @ [Replace ?tmp ?fp]"
  from hdr have err: "snd (sanitize_rows content) = None" by simp
  from sanitize_ops_ok[OF err, of ?fp] hdr
  have ops1: "sanitize_ops ?fp content = (?ops, None)" by simp
  have m1: "run ?ops m = (m(?fp \<mapsto> writerows [headers]))(?tmp := None)"
    by (rule run_rewrite)
  then have m1fp: "run ?ops m ?fp = Some (writerows [headers])" by simp
  have fields: "\<forall>row \<in> set [headers]. \<forall>f \<in> set row. utf8_valid f"
    using sanitize_rows_fields[OF hdr] by simp
  have reread: "csv_reader (text_lines (writerows [headers]))
                = ([map universal_newlines headers], None)"
    using text_rows_written[OF fields] by simp
  have scan: "scan_and_fix ?fp (run ?ops m) = ([], [], None)"
    using m1fp reread by (simp add: scan_and_fix_def)
  have step: "preprocess_file dat fin m = (?ops @ [], [], None)"
    using fl ops1 scan by (simp add: preprocess_file_def Let_def)
  have w: "writerows [headers] = writerow headers" by (simp add: writerows_def)
  have "run (?ops @ []) m ?fp = Some (writerow headers)"
    using m1fp w by simp
  with step show ?thesis by auto
qed

theorem header_only_file_is_rewritten_without_log_witness:
  "sanitize_rows (''a,b'' @ [CR, LF]) = ([[''a'', ''b'']], None)
   \<and> (\<exists>ops. preprocess_file ''d'' ''f.csv'' (map_of [(''d/f.csv'', ''a,b'' @ [CR, LF])])
               = (ops, [], None)
            \<and> run ops (map_of [(''d/f.csv'', ''a,b'' @ [CR, LF])]) (''d'' @ ''/'' @ ''f.csv'')
               = Some (writerow [''a'', ''b''])
            \<and> (run ops (map_of [(''d/f.csv'', ''a,b'' @ [CR, LF])]) (''d'' @ ''/'' @ ''f.csv'')
                 = Some (''a,b'' @ [CR, LF]))
               = (''a,b'' @ [CR, LF] = writerow [''a'', ''b'']))
   \<and> writerow [''a'', ''b''] = ''a,b'' @ [CR, LF]"
proof -
  let ?c = "''a,b'' @ [CR, LF]"
  let ?m = "map_of [(''d/f.csv'', ?c)]"
  have fl: "?m (''d'' @ ''/'' @ ''f.csv'') = Some ?c" by simp
  have hdr: "sanitize_rows ?c = ([[''a'', ''b'']], None)" by code_simp
  have w: "writerow [''a'', ''b''] = ?c" by code_simp
  from header_only_file_is_rewritten_without_log[of ?m "''d''" "''f.csv''" ?c "[''a'', ''b'']",
      OF fl hdr] hdr w
  show ?thesis by blast
qed

text \<open>
  C7 as stated fails. The file \<open>a,b,c\<close> with the line ending LF holds a header and
  nothing else; nothing is logged, but the file is rewritten with the line ending CR LF.
\<close>

theorem header_only_file_is_changed:
  "fst (sanitize_rows (''a,b,c'' @ [LF])) = [[''a'', ''b'', ''c'']]
   \<and> logged (snd (preprocess ''d'' [''f.csv''] (disk [(''d/f.csv'', ''a,b,c'' @ [LF])]))) = []
   \<and> files (snd (preprocess ''d'' [''f.csv''] (disk [(''d/f.csv'', ''a,b,c'' @ [LF])])))
       ''d/f.csv'' = Some (''a,b,c'' @ [CR, LF])
   \<and> ''a,b,c'' @ [CR, LF] \<noteq> ''a,b,c'' @ [LF]"
  by code_simp

end
